theory Spec2Isabelle
  imports Complex_Main
begin

section \<open>Numbers\<close>

text \<open>
  A \<^verbatim>\<open>double\<close> of planner.cpp is a real number or the positive infinity. The planner
  adds doubles, halves them and scales them by 1 or by the square root of two, so that
  neither a negative infinity nor a NaN arises from finite non-negative costs; rounding
  and overflow are not part of this model.
\<close>

datatype double = Finite real | Infinity

fun dadd :: "double \<Rightarrow> double \<Rightarrow> double" where
  "dadd (Finite a) (Finite b) = Finite (a + b)"
| "dadd _ _ = Infinity"

fun dmul :: "double \<Rightarrow> double \<Rightarrow> double" where
  "dmul (Finite a) (Finite b) = Finite (a * b)"
| "dmul _ _ = Infinity"

fun dhalf :: "double \<Rightarrow> double" where
  "dhalf (Finite a) = Finite (a / 2)"
| "dhalf Infinity = Infinity"

text \<open>The built-in comparison \<^verbatim>\<open><\<close> and \<^verbatim>\<open>std::min\<close>, which returns its second
  argument only when that one is smaller.\<close>

fun dlt :: "double \<Rightarrow> double \<Rightarrow> bool" where
  "dlt (Finite a) (Finite b) = (a < b)"
| "dlt (Finite a) Infinity = True"
| "dlt Infinity _ = False"

definition dmin :: "double \<Rightarrow> double \<Rightarrow> double" where
  "dmin a b = (if dlt b a then b else a)"

text \<open>\<^verbatim>\<open>DBL_MIN\<close> of \<^verbatim>\<open><cfloat>\<close>: the smallest positive normalised double.\<close>

definition DBL_MIN :: double where
  "DBL_MIN = Finite (1 / 2 ^ 1022)"

subsection \<open>The class Math\<close>

text \<open>
  The class \<^verbatim>\<open>Math\<close> is used by planner.cpp and defined elsewhere; its members are
  taken from the spec, section 4.1: all comparisons go through tolerant predicates with
  a fixed epsilon (1e-5); \<^verbatim>\<open>equals\<close>, \<^verbatim>\<open>less\<close> and \<^verbatim>\<open>greater\<close> treat values within
  epsilon as equal; infinity is the IEEE infinity; the square root of two is a
  precomputed constant.
\<close>

text \<open>Modelled from the spec: \<^verbatim>\<open>Math::EPSILON\<close>, the fixed epsilon 1e-5.\<close>

definition Math_EPSILON :: real where
  "Math_EPSILON = 1 / 100000"

text \<open>Modelled from the spec: \<^verbatim>\<open>Math::INFINITY\<close>, the IEEE infinity.\<close>

definition Math_INFINITY :: double where
  "Math_INFINITY = Infinity"

text \<open>Modelled from the spec: \<^verbatim>\<open>Math::SQRT2\<close>, the precomputed constant for the square
  root of two; it is the decimal 1.4142135623730951 here. Only the runs on the map of
  seven cells below compute with it.\<close>

definition Math_SQRT2 :: real where
  "Math_SQRT2 = 14142135623730951 / 10000000000000000"

text \<open>Modelled from the spec: \<^verbatim>\<open>Math::equals\<close>; values within epsilon of each other are
  equal, and infinity is equal to itself (planner.cpp tests for infinity with it).\<close>

fun Math_equals :: "double \<Rightarrow> double \<Rightarrow> bool" where
  "Math_equals (Finite a) (Finite b) = (\<bar>a - b\<bar> < Math_EPSILON)"
| "Math_equals Infinity Infinity = True"
| "Math_equals _ _ = False"

text \<open>Modelled from the spec: \<^verbatim>\<open>Math::less\<close>; smaller, and not equal within epsilon.\<close>

definition Math_less :: "double \<Rightarrow> double \<Rightarrow> bool" where
  "Math_less a b = (dlt a b \<and> \<not> Math_equals a b)"

text \<open>Modelled from the spec: \<^verbatim>\<open>Math::greater\<close>; greater, and not equal within
  epsilon.\<close>

definition Math_greater :: "double \<Rightarrow> double \<Rightarrow> bool" where
  "Math_greater a b = (dlt b a \<and> \<not> Math_equals a b)"

section \<open>Cells, keys and the planner's state\<close>

text \<open>
  A \<^verbatim>\<open>Map::Cell*\<close> is an address (a natural number), or \<open>None\<close> for the null pointer.
  The cells themselves are borrowed from the map: the field \<open>cells\<close> of the planner's
  state is the heap they live in.
\<close>

type_synonym cell = nat

text \<open>Modelled from the spec: the class \<^verbatim>\<open>Map::Cell\<close>, declared with the map. The spec,
  sections 3 and 4.2: a cell has integer coordinates \<^verbatim>\<open>x()\<close> and \<^verbatim>\<open>y()\<close>, a cost that
  can be read and written, and a neighbour array of length \<^verbatim>\<open>NUM_NBRS\<close> whose entries
  may be null; the length of \<open>cell_nbrs\<close> stands for \<^verbatim>\<open>NUM_NBRS\<close>.\<close>

record cell_data =
  cell_x :: int
  cell_y :: int
  cell_cost :: double
  cell_nbrs :: "cell option list"

text \<open>Modelled from the spec: \<^verbatim>\<open>Map::Cell::COST_UNWALKABLE\<close>, declared with the map. The
  spec, section 3: the distinguished cost value propagates as infinite edge cost.\<close>

definition COST_UNWALKABLE :: double where
  "COST_UNWALKABLE = Infinity"

type_synonym key = "double \<times> double"

text \<open>
  The open list is a \<^verbatim>\<open>multimap\<close> from keys to cells ordered by \<^verbatim>\<open>KeyCompare\<close>, and the
  open hash maps a cell to an iterator into it. An iterator stays valid while other nodes
  come and go, so a node of the list carries an identity of its own: a node has
  an identity, a key and a cell, the list holds the nodes in the multimap's order, and the open
  hash maps a cell to a node identity. \<open>next_node\<close> is the identity the next inserted
  node receives.

  The state of the planner has the members of the class: the open list and hash, the
  cell hash with the pairs (g, rhs), the path, km, and the pointers to the start, the
  goal and the last start. The member \<^verbatim>\<open>_map\<close> is stored by the constructor and never
  read; the heap of the cells stands in its place.
\<close>

datatype node = Node (node_id: nat) (node_key: key) (node_cell: cell)

record planner =
  cells :: "cell \<Rightarrow> cell_data"
  open_list :: "node list"
  open_hash :: "cell \<rightharpoonup> nat"
  next_node :: nat
  cell_hash :: "cell \<rightharpoonup> double \<times> double"
  path :: "cell option list"
  km :: double
  start :: cell
  goal :: cell
  last_cell :: cell

text \<open>Undefined behaviour of the C++ containers is a value: reading the element at
  \<^verbatim>\<open>begin()\<close> of an empty list, and erasing through an iterator that points to no node.\<close>

datatype error = DerefEnd | BadIterator

datatype flow = Continue | Break

definition MAX_STEPS :: nat where
  "MAX_STEPS = 1000000"

section \<open>Key order and the open list\<close>

definition KeyCompare :: "key \<Rightarrow> key \<Rightarrow> bool" where
  "KeyCompare p1 p2 =
     (if Math_less (fst p1) (fst p2) then True
      else if Math_greater (fst p1) (fst p2) then False
      else if Math_less (snd p1) (snd p2) then True
      else if Math_greater (snd p1) (snd p2) then False
      else False)"

text \<open>\<^verbatim>\<open>multimap::insert(value)\<close> puts the new node behind every node whose key is not
  greater (the upper bound of its key).\<close>

fun ol_insert :: "node \<Rightarrow> node list \<Rightarrow> node list" where
  "ol_insert n [] = [n]"
| "ol_insert n (x # xs) =
     (if KeyCompare (node_key n) (node_key x) then n # x # xs else x # ol_insert n xs)"

text \<open>The lower bound: in front of the first node whose key is not smaller.\<close>

fun ol_insert_lower :: "node \<Rightarrow> node list \<Rightarrow> node list" where
  "ol_insert_lower n [] = [n]"
| "ol_insert_lower n (x # xs) =
     (if KeyCompare (node_key x) (node_key n) then x # ol_insert_lower n xs else n # x # xs)"

text \<open>
  \<^verbatim>\<open>multimap::insert(hint, value)\<close> puts the new node as close as possible to the place
  just in front of the hint. \<open>pre\<close> are the nodes in front of the hint and \<open>post\<close> the
  hint and the nodes behind it: the new node goes between them when the order allows it,
  to the lower bound behind the hint when the hint is too early, and to the upper bound
  when it is too late.
\<close>

definition ol_insert_hint :: "node list \<Rightarrow> node list \<Rightarrow> node \<Rightarrow> node list" where
  "ol_insert_hint pre post n =
     (if post \<noteq> [] \<and> KeyCompare (node_key (hd post)) (node_key n)
      then pre @ ol_insert_lower n post
      else if pre \<noteq> [] \<and> KeyCompare (node_key n) (node_key (last pre))
      then ol_insert n (pre @ post)
      else pre @ n # post)"

text \<open>The nodes in front of the node with identity \<open>h\<close> and the nodes behind it; \<open>None\<close>
  when the list has no such node.\<close>

fun ol_split :: "nat \<Rightarrow> node list \<Rightarrow> (node list \<times> node list) option" where
  "ol_split h [] = None"
| "ol_split h (n # ns) =
     (if node_id n = h then Some ([], ns)
      else (case ol_split h ns of None \<Rightarrow> None | Some (pre, post) \<Rightarrow> Some (n # pre, post)))"

definition p_list_insert :: "cell \<Rightarrow> key \<Rightarrow> planner \<Rightarrow> planner" where
  "p_list_insert u k s =
     s\<lparr>open_list := ol_insert (Node (next_node s) k u) (open_list s),
       open_hash := (open_hash s)(u \<mapsto> next_node s),
       next_node := Suc (next_node s)\<rparr>"

definition p_list_remove :: "cell \<Rightarrow> planner \<Rightarrow> error + planner" where
  "p_list_remove u s =
     (case open_hash s u of
        None \<Rightarrow> Inl BadIterator
      | Some h \<Rightarrow>
          (case ol_split h (open_list s) of
             None \<Rightarrow> Inl BadIterator
           | Some (pre, post) \<Rightarrow>
               Inr (s\<lparr>open_list := pre @ post, open_hash := (open_hash s)(u := None)\<rparr>)))"

definition p_list_update :: "cell \<Rightarrow> key \<Rightarrow> planner \<Rightarrow> error + planner" where
  "p_list_update u k s =
     (case open_hash s u of
        None \<Rightarrow> Inl BadIterator
      | Some h \<Rightarrow>
          (case ol_split h (open_list s) of
             None \<Rightarrow> Inl BadIterator
           | Some (pre, post) \<Rightarrow>
               Inr (s\<lparr>open_list := ol_insert_hint pre post (Node (next_node s) k u),
                      open_hash := (open_hash s)(u \<mapsto> next_node s),
                      next_node := Suc (next_node s)\<rparr>)))"

section \<open>The state store\<close>

text \<open>
  A private member \<^verbatim>\<open>_f\<close> of the class is \<open>p_f\<close> here. The accessors \<^verbatim>\<open>_g\<close> and
  \<^verbatim>\<open>_rhs\<close> take the value to store as their second argument, and the calls of the
  source with one argument pass \<^verbatim>\<open>DBL_MIN\<close> for it. Each function returns its result
  together with the state it leaves.
\<close>

definition p_cell :: "cell \<Rightarrow> planner \<Rightarrow> planner" where
  "p_cell u s =
     (if cell_hash s u \<noteq> None then s
      else s\<lparr>cell_hash := (cell_hash s)(u \<mapsto> (Math_INFINITY, Math_INFINITY))\<rparr>)"

text \<open>\<^verbatim>\<open>_cell_hash[u]\<close>: the stored pair, a pair of zeros being stored first for a cell
  without one.\<close>

definition cell_hash_at :: "cell \<Rightarrow> planner \<Rightarrow> (double \<times> double) \<times> planner" where
  "cell_hash_at u s =
     (case cell_hash s u of
        Some p \<Rightarrow> (p, s)
      | None \<Rightarrow> ((Finite 0, Finite 0), s\<lparr>cell_hash := (cell_hash s)(u \<mapsto> (Finite 0, Finite 0))\<rparr>))"

definition p_g :: "cell \<Rightarrow> double \<Rightarrow> planner \<Rightarrow> double \<times> planner" where
  "p_g u v s =
     (let s1 = p_cell u s;
          (g_rhs, s2) = cell_hash_at u s1
      in if v \<noteq> DBL_MIN
         then (v, s2\<lparr>cell_hash := (cell_hash s2)(u \<mapsto> (v, snd g_rhs))\<rparr>)
         else (fst g_rhs, s2))"

definition p_rhs :: "cell \<Rightarrow> double \<Rightarrow> planner \<Rightarrow> double \<times> planner" where
  "p_rhs u v s =
     (if u = goal s then (Finite 0, s)
      else
        (let s1 = p_cell u s;
             (g_rhs, s2) = cell_hash_at u s1
         in if v \<noteq> DBL_MIN
            then (v, s2\<lparr>cell_hash := (cell_hash s2)(u \<mapsto> (fst g_rhs, v))\<rparr>)
            else (snd g_rhs, s2)))"

section \<open>Edge cost, heuristic and key\<close>

text \<open>\<^verbatim>\<open>_cost\<close> and \<^verbatim>\<open>_h\<close> read the cells they are given; \<open>m\<close> is the heap of the cells.\<close>

definition p_cost :: "(cell \<Rightarrow> cell_data) \<Rightarrow> cell \<Rightarrow> cell \<Rightarrow> double" where
  "p_cost m a b =
     (if cell_cost (m a) = COST_UNWALKABLE \<or> cell_cost (m b) = COST_UNWALKABLE
      then COST_UNWALKABLE
      else
        (let dx = nat \<bar>cell_x (m a) - cell_x (m b)\<bar>;
             dy = nat \<bar>cell_y (m a) - cell_y (m b)\<bar>;
             scale = (if dx + dy > 1 then Math_SQRT2 else 1)
         in dmul (Finite scale) (dhalf (dadd (cell_cost (m a)) (cell_cost (m b))))))"

definition p_h :: "(cell \<Rightarrow> cell_data) \<Rightarrow> cell \<Rightarrow> cell \<Rightarrow> double" where
  "p_h m a b =
     (let mn = real_of_int \<bar>cell_x (m a) - cell_x (m b)\<bar>;
          mx = real_of_int \<bar>cell_y (m a) - cell_y (m b)\<bar>
      in if mn > mx then Finite ((Math_SQRT2 - 1) * mx + mn)
         else Finite ((Math_SQRT2 - 1) * mn + mx))"

definition p_k :: "cell \<Rightarrow> planner \<Rightarrow> key \<times> planner" where
  "p_k u s =
     (let (g, s1) = p_g u DBL_MIN s;
          (rhs, s2) = p_rhs u DBL_MIN s1;
          mn = (if Math_less g rhs then g else rhs)
      in ((dadd (dadd mn (p_h (cells s2) (start s2) u)) (km s2), mn), s2))"

section \<open>Reconciling a cell with the open list\<close>

definition p_update :: "cell \<Rightarrow> planner \<Rightarrow> error + planner" where
  "p_update u s =
     (let (g, s1) = p_g u DBL_MIN s;
          (rhs, s2) = p_rhs u DBL_MIN s1;
          diff = (\<not> Math_equals g rhs);
          present = (open_hash s2 u \<noteq> None)
      in if diff \<and> present then (let (k, s3) = p_k u s2 in p_list_update u k s3)
         else if diff \<and> \<not> present then (let (k, s3) = p_k u s2 in Inr (p_list_insert u k s3))
         else if \<not> diff \<and> present then p_list_remove u s2
         else Inr s2)"

section \<open>The public operations but replan\<close>

definition Planner :: "(cell \<Rightarrow> cell_data) \<Rightarrow> cell \<Rightarrow> cell \<Rightarrow> planner" where
  "Planner m st gl =
     (let s0 = \<lparr>cells = m, open_list = [], open_hash = Map.empty, next_node = 0,
                cell_hash = Map.empty, path = [], km = Finite 0,
                start = st, goal = gl, last_cell = st\<rparr>;
          s1 = snd (p_rhs gl (Finite 0) s0);
          (k, s2) = p_k gl s1
      in p_list_insert gl k s2)"

text \<open>\<^verbatim>\<open>goal(u)\<close> and \<^verbatim>\<open>start(u)\<close>: a null argument only reads.\<close>

definition goal_acc :: "cell option \<Rightarrow> planner \<Rightarrow> cell \<times> planner" where
  "goal_acc u s = (case u of None \<Rightarrow> (goal s, s) | Some c \<Rightarrow> (c, s\<lparr>goal := c\<rparr>))"

definition start_acc :: "cell option \<Rightarrow> planner \<Rightarrow> cell \<times> planner" where
  "start_acc u s = (case u of None \<Rightarrow> (start s, s) | Some c \<Rightarrow> (c, s\<lparr>start := c\<rparr>))"

definition update :: "cell \<Rightarrow> double \<Rightarrow> planner \<Rightarrow> error + planner" where
  "update u c s =
     (if u = goal s then Inr s
      else
        (let s1 = s\<lparr>km := dadd (km s) (p_h (cells s) (last_cell s) (start s)),
                    last_cell := start s\<rparr>;
             s2 = p_cell u s1;
             s3 = s2\<lparr>cells := (cells s2)(u := (cells s2 u)\<lparr>cell_cost := c\<rparr>)\<rparr>
         in p_update u s3))"

section \<open>The repair loop\<close>

text \<open>The condition of the loop of \<^verbatim>\<open>_compute\<close>: \<^verbatim>\<open>&&\<close> binds tighter than \<^verbatim>\<open>||\<close>, and
  the key of the first node is read only behind the test for an empty list.\<close>

definition loop_cond :: "planner \<Rightarrow> bool \<times> planner" where
  "loop_cond s =
     (let (below, s1) =
            (case open_list s of
               [] \<Rightarrow> (False, s)
             | n # _ \<Rightarrow> (let (ks, sa) = p_k (start s) s in (KeyCompare (node_key n) ks, sa)))
      in if below then (True, s1)
         else
           (let (rhs, s2) = p_rhs (start s1) DBL_MIN s1;
                (g, s3) = p_g (start s2) DBL_MIN s2
            in (\<not> Math_equals rhs g, s3)))"

text \<open>The first loop over the neighbours, in the branch of an overconsistent cell.\<close>

fun lower_nbrs :: "cell \<Rightarrow> cell option list \<Rightarrow> planner \<Rightarrow> error + planner" where
  "lower_nbrs u [] s = Inr s"
| "lower_nbrs u (None # ns) s = lower_nbrs u ns s"
| "lower_nbrs u (Some v # ns) s =
     (let s3 =
            (if v \<noteq> goal s
             then
               (let (r, s1) = p_rhs v DBL_MIN s;
                    c = p_cost (cells s1) v u;
                    (g, s2) = p_g u DBL_MIN s1
                in snd (p_rhs v (dmin r (dadd c g)) s2))
             else s)
      in case p_update v s3 of Inl e \<Rightarrow> Inl e | Inr s4 \<Rightarrow> lower_nbrs u ns s4)"

text \<open>The loop of the last branch that looks for the smallest sum; it reads \<^verbatim>\<open>tmp_g\<close>,
  the value of the cell itself.\<close>

fun min_cost_nbrs :: "cell \<Rightarrow> double \<Rightarrow> cell option list \<Rightarrow> double \<Rightarrow> planner \<Rightarrow> double" where
  "min_cost_nbrs u tmp_g [] min_cost s = min_cost"
| "min_cost_nbrs u tmp_g (None # ns) min_cost s = min_cost_nbrs u tmp_g ns min_cost s"
| "min_cost_nbrs u tmp_g (Some v # ns) min_cost s =
     (let tmp_cost = p_cost (cells s) u v
      in if Math_equals tmp_cost Math_INFINITY then min_cost_nbrs u tmp_g ns min_cost s
         else
           (let tmp_cost2 = dadd tmp_cost tmp_g
            in min_cost_nbrs u tmp_g ns
                 (if Math_less tmp_cost2 min_cost then tmp_cost2 else min_cost) s))"

fun update_nbrs :: "cell option list \<Rightarrow> planner \<Rightarrow> error + planner" where
  "update_nbrs [] s = Inr s"
| "update_nbrs (None # ns) s = update_nbrs ns s"
| "update_nbrs (Some v # ns) s =
     (case p_update v s of Inl e \<Rightarrow> Inl e | Inr s1 \<Rightarrow> update_nbrs ns s1)"

text \<open>
  The last branch of the loop body. Its call \<^verbatim>\<open>_rhs(u, min)\<close> names no variable of
  \<^verbatim>\<open>_compute\<close> (the smallest sum is in \<^verbatim>\<open>min_cost\<close>); the double that reaches
  \<^verbatim>\<open>_rhs\<close> there is the parameter \<open>min_arg\<close> of the loop.
\<close>

definition retract_cell :: "double \<Rightarrow> cell \<Rightarrow> planner \<Rightarrow> error + (flow \<times> planner)" where
  "retract_cell min_arg u s =
     (let (g_old, s1) = p_g u DBL_MIN s;
          s2 = snd (p_g u Math_INFINITY s1);
          nbrs = cell_nbrs (cells s2 u);
          after_rhs =
            (if u \<noteq> goal s2
             then
               (let (tmp_g, s3) = p_g u DBL_MIN s2
                in if Math_equals tmp_g Math_INFINITY then Inl s3
                   else
                     (let min_cost = min_cost_nbrs u tmp_g nbrs Math_INFINITY s3
                      in Inr (snd (p_rhs u min_arg s3))))
             else Inr s2)
      in case after_rhs of
           Inl s3 \<Rightarrow> Inr (Break, s3)
         | Inr s4 \<Rightarrow>
             (case p_update u s4 of
                Inl e \<Rightarrow> Inl e
              | Inr s5 \<Rightarrow>
                  (case update_nbrs nbrs s5 of
                     Inl e \<Rightarrow> Inl e
                   | Inr s6 \<Rightarrow> Inr (Continue, s6))))"

text \<open>The body of the loop behind the test of the step counter.\<close>

definition compute_step :: "double \<Rightarrow> planner \<Rightarrow> error + (flow \<times> planner)" where
  "compute_step min_arg s =
     (case open_list s of
        [] \<Rightarrow> Inl DerefEnd
      | n # _ \<Rightarrow>
          (let u = node_cell n;
               k_old = node_key n;
               (k_new, s1) = p_k u s
           in if KeyCompare k_old k_new
              then (case p_list_update u k_new s1 of
                      Inl e \<Rightarrow> Inl e
                    | Inr s2 \<Rightarrow> Inr (Continue, s2))
              else
                (let (g, s2) = p_g u DBL_MIN s1;
                     (rhs, s3) = p_rhs u DBL_MIN s2
                 in if Math_greater g rhs
                    then
                      (let (r, s4) = p_rhs u DBL_MIN s3;
                           s5 = snd (p_g u r s4)
                       in case p_list_remove u s5 of
                            Inl e \<Rightarrow> Inl e
                          | Inr s6 \<Rightarrow>
                              (case lower_nbrs u (cell_nbrs (cells s6 u)) s6 of
                                 Inl e \<Rightarrow> Inl e
                               | Inr s7 \<Rightarrow> Inr (Continue, s7)))
                    else retract_cell min_arg u s3)))"

function compute_loop :: "double \<Rightarrow> nat \<Rightarrow> planner \<Rightarrow> error + (bool \<times> planner)" where
  "compute_loop min_arg attempts s =
     (if fst (loop_cond s)
      then
        (if Suc attempts > MAX_STEPS then Inr (False, snd (loop_cond s))
         else
           (case compute_step min_arg (snd (loop_cond s)) of
              Inl e \<Rightarrow> Inl e
            | Inr (Break, s1) \<Rightarrow> Inr (True, s1)
            | Inr (Continue, s1) \<Rightarrow> compute_loop min_arg (Suc attempts) s1))
      else Inr (True, snd (loop_cond s)))"
  by pat_completeness auto
termination
  by (relation "measure (\<lambda>(m, a, s). Suc MAX_STEPS - a)") auto

declare compute_loop.simps [simp del]

definition p_compute :: "double \<Rightarrow> planner \<Rightarrow> error + (bool \<times> planner)" where
  "p_compute min_arg s =
     (if open_list s = [] then Inr (False, s) else compute_loop min_arg 0 s)"

section \<open>Path extraction and replan\<close>

fun min_succ_nbrs ::
  "cell \<Rightarrow> cell option list \<Rightarrow> cell option \<Rightarrow> double \<Rightarrow> planner \<Rightarrow> cell option \<times> planner" where
  "min_succ_nbrs u [] min_cell min_cost s = (min_cell, s)"
| "min_succ_nbrs u (None # ns) min_cell min_cost s = min_succ_nbrs u ns min_cell min_cost s"
| "min_succ_nbrs u (Some v # ns) min_cell min_cost s =
     (let tmp_cost = p_cost (cells s) u v;
          (tmp_g, s1) = p_g v DBL_MIN s
      in if Math_equals tmp_cost Math_INFINITY \<or> Math_equals tmp_g Math_INFINITY
         then min_succ_nbrs u ns min_cell min_cost s1
         else
           (let tmp_cost2 = dadd tmp_cost tmp_g
            in if Math_less tmp_cost2 min_cost
               then min_succ_nbrs u ns (Some v) tmp_cost2 s1
               else min_succ_nbrs u ns min_cell min_cost s1))"

definition p_min_succ :: "cell \<Rightarrow> planner \<Rightarrow> cell option \<times> planner" where
  "p_min_succ u s = min_succ_nbrs u (cell_nbrs (cells s u)) None Math_INFINITY s"

text \<open>The loop of \<^verbatim>\<open>replan\<close> that follows the smallest successor. Nothing bounds it: it
  has the value \<open>None\<close> when it never ends.\<close>

partial_function (option) follow :: "cell option \<Rightarrow> planner \<Rightarrow> (bool \<times> planner) option" where
  "follow current s =
     (if current = Some (goal s) then Some (True, s)
      else
        (case current of
           None \<Rightarrow> Some (False, s)
         | Some c \<Rightarrow>
             (if Math_equals (fst (p_g c DBL_MIN s)) Math_INFINITY
              then Some (False, snd (p_g c DBL_MIN s))
              else
                follow (fst (p_min_succ c (snd (p_g c DBL_MIN s))))
                  ((snd (p_min_succ c (snd (p_g c DBL_MIN s))))
                     \<lparr>path := path (snd (p_min_succ c (snd (p_g c DBL_MIN s))))
                               @ [fst (p_min_succ c (snd (p_g c DBL_MIN s)))]\<rparr>))))"

definition replan :: "double \<Rightarrow> planner \<Rightarrow> (error + bool \<times> planner) option" where
  "replan min_arg s =
     (case p_compute min_arg (s\<lparr>path := []\<rparr>) of
        Inl e \<Rightarrow> Some (Inl e)
      | Inr (result, s1) \<Rightarrow>
          (if \<not> result then Some (Inr (False, s1))
           else
             (case follow (Some (start s1)) (s1\<lparr>path := path s1 @ [Some (start s1)]\<rparr>) of
                None \<Rightarrow> None
              | Some r \<Rightarrow> Some (Inr r))))"

section \<open>What the accessors read\<close>

text \<open>
  The stored g and rhs of a cell, a cell without a stored pair reading as infinity (the
  pair that \<^verbatim>\<open>_cell\<close> would store), and what \<^verbatim>\<open>_rhs\<close> and \<^verbatim>\<open>_k\<close> return. The lemmas
  \<open>p_g_get\<close>, \<open>p_rhs_get\<close> and \<open>p_k_eq\<close> below prove that the accessors return these
  values.
\<close>

definition g_of :: "planner \<Rightarrow> cell \<Rightarrow> double" where
  "g_of s u = (case cell_hash s u of None \<Rightarrow> Math_INFINITY | Some p \<Rightarrow> fst p)"

definition r_of :: "planner \<Rightarrow> cell \<Rightarrow> double" where
  "r_of s u = (case cell_hash s u of None \<Rightarrow> Math_INFINITY | Some p \<Rightarrow> snd p)"

definition rhs_of :: "planner \<Rightarrow> cell \<Rightarrow> double" where
  "rhs_of s u = (if u = goal s then Finite 0 else r_of s u)"

definition key_of :: "planner \<Rightarrow> cell \<Rightarrow> key" where
  "key_of s u =
     (let mn = (if Math_less (g_of s u) (rhs_of s u) then g_of s u else rhs_of s u)
      in (dadd (dadd mn (p_h (cells s) (start s) u)) (km s), mn))"

text \<open>No stored value is \<^verbatim>\<open>DBL_MIN\<close>.\<close>

definition no_DBL_MIN :: "planner \<Rightarrow> bool" where
  "no_DBL_MIN s = (\<forall>c p. cell_hash s c = Some p \<longrightarrow> fst p \<noteq> DBL_MIN \<and> snd p \<noteq> DBL_MIN)"

section \<open>What the host observes\<close>

text \<open>The result of \<^verbatim>\<open>replan()\<close> together with what \<^verbatim>\<open>path()\<close> returns after it, and the
  two calls of \<^verbatim>\<open>update\<close> that raise the cost of a cell to \<^verbatim>\<open>COST_UNWALKABLE\<close> and set
  it back.\<close>

definition replan_path :: "double \<Rightarrow> planner \<Rightarrow> (error + bool \<times> cell option list) option" where
  "replan_path min_arg s =
     (case replan min_arg s of
        None \<Rightarrow> None
      | Some (Inl e) \<Rightarrow> Some (Inl e)
      | Some (Inr r) \<Rightarrow> Some (Inr (fst r, path (snd r))))"

definition raise_and_restore :: "cell \<Rightarrow> double \<Rightarrow> planner \<Rightarrow> error + planner" where
  "raise_and_restore u c0 s =
     (case update u COST_UNWALKABLE s of Inl e \<Rightarrow> Inl e | Inr s1 \<Rightarrow> update u c0 s1)"

section \<open>Invariants\<close>

text \<open>The cells on the open list, and the agreement of the open list with the open
  hash: the nodes have distinct identities below \<open>next_node\<close>, the hash maps the cell of
  every node to the identity of that node, and it maps no other cell.\<close>

definition on_list :: "planner \<Rightarrow> cell set" where
  "on_list s = node_cell ` set (open_list s)"

definition open_ok :: "planner \<Rightarrow> bool" where
  "open_ok s =
     (distinct (map node_id (open_list s)) \<and>
      (\<forall>n \<in> set (open_list s). node_id n < next_node s) \<and>
      (\<forall>n \<in> set (open_list s). open_hash s (node_cell n) = Some (node_id n)) \<and>
      (\<forall>u. open_hash s u \<noteq> None \<longrightarrow> u \<in> node_cell ` set (open_list s)))"

text \<open>The correspondence of C6: a cell is on the open list exactly when its g and its
  rhs differ under tolerant equality. It is kept together with three more facts: rhs is
  never above g, the open list agrees with the open hash, and no stored value is
  \<^verbatim>\<open>DBL_MIN\<close>.\<close>

definition queue_matches :: "planner \<Rightarrow> bool" where
  "queue_matches s =
     (\<forall>u. (u \<in> on_list s \<longrightarrow> \<not> Math_equals (g_of s u) (rhs_of s u)) \<and>
          (u \<notin> on_list s \<longrightarrow> Math_equals (g_of s u) (rhs_of s u)))"

definition rhs_below :: "planner \<Rightarrow> bool" where
  "rhs_below s = (\<forall>u. \<not> dlt (g_of s u) (rhs_of s u))"

definition Inv :: "planner \<Rightarrow> bool" where
  "Inv s = (open_ok s \<and> queue_matches s \<and> rhs_below s \<and> no_DBL_MIN s)"

text \<open>The invariant but for the correspondence at one cell, between a write to that cell
  and the call of \<^verbatim>\<open>_update\<close> for it.\<close>

definition Inv_but :: "cell \<Rightarrow> planner \<Rightarrow> bool" where
  "Inv_but v s =
     (open_ok s \<and> rhs_below s \<and> no_DBL_MIN s \<and>
      (\<forall>u. u \<noteq> v \<longrightarrow> (u \<in> on_list s \<longleftrightarrow> \<not> Math_equals (g_of s u) (rhs_of s u))))"

text \<open>What an operation leaves alone: everything but the open list and hash
  (\<open>same_store\<close>); everything that is read, but for the path, the open list and which cells
  have a stored pair (\<open>same_reads\<close>); the open list and hash (\<open>same_queue\<close>); and what the
  walk of \<^verbatim>\<open>replan\<close> depends on (\<open>walk_eq\<close>).\<close>

definition same_store :: "planner \<Rightarrow> planner \<Rightarrow> bool" where
  "same_store s s' =
     (cells s' = cells s \<and> cell_hash s' = cell_hash s \<and> path s' = path s \<and> km s' = km s \<and>
      start s' = start s \<and> goal s' = goal s \<and> last_cell s' = last_cell s)"

definition same_reads :: "planner \<Rightarrow> planner \<Rightarrow> bool" where
  "same_reads s s' =
     (cells s' = cells s \<and> g_of s' = g_of s \<and> r_of s' = r_of s \<and> km s' = km s \<and>
      start s' = start s \<and> goal s' = goal s \<and> last_cell s' = last_cell s)"

definition walk_eq :: "planner \<Rightarrow> planner \<Rightarrow> bool" where
  "walk_eq s t = (cells s = cells t \<and> g_of s = g_of t \<and> goal s = goal t \<and> path s = path t)"

definition same_queue :: "planner \<Rightarrow> planner \<Rightarrow> bool" where
  "same_queue s s' =
     (open_list s' = open_list s \<and> open_hash s' = open_hash s \<and> next_node s' = next_node s)"

text \<open>What the repair loop leaves alone: the cells, the start and the goal.\<close>

definition same_map :: "planner \<Rightarrow> planner \<Rightarrow> bool" where
  "same_map s s' = (cells s' = cells s \<and> start s' = start s \<and> goal s' = goal s)"

section \<open>Example maps\<close>

text \<open>Three cells in a row, at (0,0), (1,0) and (2,0), each of cost 1; every cell has
  an array of two neighbours, null where the row ends.\<close>

definition line3 :: "cell \<Rightarrow> cell_data" where
  "line3 c = \<lparr>cell_x = int c, cell_y = 0, cell_cost = Finite 1,
     cell_nbrs = (if c = 0 then [None, Some 1] else if c = 1 then [Some 0, Some 2]
                  else if c = 2 then [Some 1, None] else [])\<rparr>"

text \<open>The same row with its middle cell unwalkable.\<close>

definition wall3 :: "cell \<Rightarrow> cell_data" where
  "wall3 = line3(1 := (line3 1)\<lparr>cell_cost := COST_UNWALKABLE\<rparr>)"

text \<open>Four cells in a row, each of cost 1.\<close>

definition line4 :: "cell \<Rightarrow> cell_data" where
  "line4 c = \<lparr>cell_x = int c, cell_y = 0, cell_cost = Finite 1,
     cell_nbrs = (if c = 0 then [None, Some 1] else if c = 1 then [Some 0, Some 2]
                  else if c = 2 then [Some 1, Some 3] else if c = 3 then [Some 2, None]
                  else [])\<rparr>"

text \<open>The planner for the four cells with the start at (2,0) and the goal at (0,0) after
  its first \<^verbatim>\<open>replan()\<close>, and after the \<^verbatim>\<open>update\<close> that makes the cell at (1,0)
  unwalkable.\<close>

definition line4_found :: planner where
  "line4_found =
     \<lparr>cells = line4, open_list = [Node 3 (Finite 4, Finite 3) 3], open_hash = [3 \<mapsto> 3],
       next_node = 4,
       cell_hash = [0 \<mapsto> (Finite 0, Infinity), 2 \<mapsto> (Finite 2, Finite 2),
                    1 \<mapsto> (Finite 1, Finite 1), 3 \<mapsto> (Infinity, Finite 3)],
       path = [Some 2, Some 1, Some 0], km = Finite 0, start = 2, goal = 0, last_cell = 2\<rparr>"

definition line4_blocked :: planner where
  "line4_blocked =
     line4_found\<lparr>cells := line4(1 := (line4 1)\<lparr>cell_cost := COST_UNWALKABLE\<rparr>)\<rparr>"

text \<open>The planner for the row with the start at (2,0) and the goal at (0,0) after its
  first \<^verbatim>\<open>replan()\<close>: the open list has run empty.\<close>

definition line3_drained :: planner where
  "line3_drained =
     \<lparr>cells = line3, open_list = [], open_hash = Map.empty, next_node = 3,
       cell_hash = [0 \<mapsto> (Finite 0, Infinity), 2 \<mapsto> (Finite 2, Finite 2),
                    1 \<mapsto> (Finite 1, Finite 1)],
       path = [Some 2, Some 1, Some 0], km = Finite 0, start = 2, goal = 0, last_cell = 2\<rparr>"

text \<open>The planner for the row with the start at (1,0) and the goal at (0,0) after its
  first \<^verbatim>\<open>replan()\<close>: the cell at (2,0) is left on the open list.\<close>

definition line3_mid :: planner where
  "line3_mid =
     \<lparr>cells = line3, open_list = [Node 2 (Finite 3, Finite 2) 2], open_hash = [2 \<mapsto> 2],
       next_node = 3,
       cell_hash = [0 \<mapsto> (Finite 0, Infinity), 1 \<mapsto> (Finite 1, Finite 1),
                    2 \<mapsto> (Infinity, Finite 2)],
       path = [Some 1, Some 0], km = Finite 0, start = 1, goal = 0, last_cell = 1\<rparr>"

text \<open>That planner after \<^verbatim>\<open>goal(u)\<close> with the cell at (1,0) and \<^verbatim>\<open>update\<close> of the
  former goal with its own cost: the former goal leads the open list with a fresh key,
  and its g, 0, is below its rhs, infinity.\<close>

definition line3_under :: planner where
  "line3_under =
     \<lparr>cells = line3,
       open_list = [Node 3 (Finite 1, Finite 0) 0, Node 2 (Finite 3, Finite 2) 2],
       open_hash = [2 \<mapsto> 2, 0 \<mapsto> 3], next_node = 4,
       cell_hash = [0 \<mapsto> (Finite 0, Infinity), 1 \<mapsto> (Finite 1, Finite 1),
                    2 \<mapsto> (Infinity, Finite 2)],
       path = [Some 1, Some 0], km = Finite 0, start = 1, goal = 1, last_cell = 1\<rparr>"

text \<open>The planner of \<open>line3_mid\<close> after \<^verbatim>\<open>update\<close> has raised the cost of the cell at
  (2,0), which is on the open list, and set it back: each call has put the cell back into
  the list under a new node with the same key.\<close>

definition line3_rekeyed :: planner where
  "line3_rekeyed =
     line3_mid\<lparr>open_list := [Node 4 (Finite 3, Finite 2) 2], open_hash := [2 \<mapsto> 4],
                next_node := 5\<rparr>"

text \<open>Seven cells of a grid with four columns and three rows, the cell \<open>c\<close> in column
  \<open>c mod 4\<close> and row \<open>c div 4\<close>, each of cost 1: the cells 1 and 2 of the first row, 4 and
  7 of the second, and 8, 9 and 10 of the third. Every cell has an array of eight
  neighbours, the row above from left to right, the cell to the left, the cell to the
  right, and the row below from left to right, null where the grid has no cell.\<close>

definition bay :: "cell \<Rightarrow> cell_data" where
  "bay c = \<lparr>cell_x = (if c = 1 \<or> c = 9 then 1 else if c = 2 \<or> c = 10 then 2 else if c = 7 then 3 else 0),
     cell_y = (if c = 4 \<or> c = 7 then 1 else if c = 8 \<or> c = 9 \<or> c = 10 then 2 else 0),
     cell_cost = Finite 1,
     cell_nbrs =
       (if c = 1 then [None, None, None, None, Some 2, Some 4, None, None]
        else if c = 2 then [None, None, None, Some 1, None, None, None, Some 7]
        else if c = 4 then [None, None, Some 1, None, None, None, Some 8, Some 9]
        else if c = 7 then [Some 2, None, None, None, None, Some 10, None, None]
        else if c = 8 then [None, Some 4, None, None, Some 9, None, None, None]
        else if c = 9 then [Some 4, None, None, Some 8, Some 10, None, None, None]
        else if c = 10 then [None, None, Some 7, Some 9, None, None, None, None]
        else [])\<rparr>"

text \<open>The planner for the seven cells with the start at cell 8 and the goal at cell 10
  after its first \<^verbatim>\<open>replan()\<close>; that planner after \<^verbatim>\<open>start(u)\<close> with the cell 1 and a
  second \<^verbatim>\<open>replan()\<close>, which leaves last at cell 8; and the latter after \<^verbatim>\<open>update\<close> has
  raised the cost of cell 1 and set it back, which adds h(last, start) to km.\<close>

definition bay_first :: planner where
  "bay_first =
     \<lparr>cells = bay,
       open_list = [Node 5 (Finite (Math_SQRT2 + 2), Finite (Math_SQRT2 + 1)) 4,
                    Node 1 (Finite (2 * Math_SQRT2 + 2), Finite Math_SQRT2) 7],
       open_hash = [7 \<mapsto> 1, 4 \<mapsto> 5], next_node = 6,
       cell_hash = [10 \<mapsto> (Finite 0, Infinity), 7 \<mapsto> (Infinity, Finite Math_SQRT2),
                    8 \<mapsto> (Finite 2, Finite 2), 4 \<mapsto> (Infinity, Finite (Math_SQRT2 + 1)),
                    9 \<mapsto> (Finite 1, Finite 1)],
       path = [Some 8, Some 9, Some 10], km = Finite 0, start = 8, goal = 10, last_cell = 8\<rparr>"

definition bay_second :: planner where
  "bay_second =
     \<lparr>cells = bay,
       open_list = [Node 1 (Finite (2 * Math_SQRT2 + 2), Finite Math_SQRT2) 7,
                    Node 8 (Finite (2 * Math_SQRT2 + 3), Finite (2 * Math_SQRT2 + 2)) 2],
       open_hash = [7 \<mapsto> 1, 2 \<mapsto> 8], next_node = 9,
       cell_hash = [10 \<mapsto> (Finite 0, Infinity), 7 \<mapsto> (Infinity, Finite Math_SQRT2),
                    8 \<mapsto> (Finite 2, Finite 2), 9 \<mapsto> (Finite 1, Finite 1),
                    1 \<mapsto> (Finite (2 * Math_SQRT2 + 1), Finite (2 * Math_SQRT2 + 1)),
                    2 \<mapsto> (Infinity, Finite (2 * Math_SQRT2 + 2)),
                    4 \<mapsto> (Finite (Math_SQRT2 + 1), Finite (Math_SQRT2 + 1))],
       path = [Some 1, Some 4, Some 9, Some 10], km = Finite 0, start = 1, goal = 10,
       last_cell = 8\<rparr>"

definition bay_third :: planner where
  "bay_third = bay_second\<lparr>km := Finite (Math_SQRT2 + 1), last_cell := 1\<rparr>"

section \<open>The accessors\<close>

lemma DBL_MIN_neq [simp]:
  "DBL_MIN \<noteq> Infinity" "Infinity \<noteq> DBL_MIN" "DBL_MIN \<noteq> Finite 0" "Finite 0 \<noteq> DBL_MIN"
  "DBL_MIN \<noteq> Math_INFINITY" "Math_INFINITY \<noteq> DBL_MIN"
  by (simp_all add: DBL_MIN_def Math_INFINITY_def)

lemma p_cell_fields [simp]:
  "cells (p_cell u s) = cells s" "open_list (p_cell u s) = open_list s"
  "open_hash (p_cell u s) = open_hash s" "next_node (p_cell u s) = next_node s"
  "path (p_cell u s) = path s" "km (p_cell u s) = km s" "start (p_cell u s) = start s"
  "goal (p_cell u s) = goal s" "last_cell (p_cell u s) = last_cell s"
  by (simp_all add: p_cell_def)

lemma p_cell_hash:
  "cell_hash (p_cell u s) = (if cell_hash s u = None then (cell_hash s)(u \<mapsto> (Math_INFINITY, Math_INFINITY)) else cell_hash s)"
  by (simp add: p_cell_def)

lemma p_g_get: "p_g u DBL_MIN s = (g_of s u, p_cell u s)"
  by (auto simp: p_g_def p_cell_def cell_hash_at_def g_of_def Let_def split: option.splits)

lemma p_rhs_get: "p_rhs u DBL_MIN s = (rhs_of s u, if u = goal s then s else p_cell u s)"
  by (auto simp: p_rhs_def p_cell_def cell_hash_at_def rhs_of_def r_of_def Let_def split: option.splits)

lemma p_cell_p_cell [simp]: "p_cell u (p_cell u s) = p_cell u s"
  by (simp add: p_cell_def)

lemma reads_p_cell [simp]:
  "g_of (p_cell u s) v = g_of s v" "r_of (p_cell u s) v = r_of s v"
  "rhs_of (p_cell u s) v = rhs_of s v"
  by (auto simp: g_of_def r_of_def rhs_of_def p_cell_def split: option.splits)

lemma key_of_p_cell [simp]: "key_of (p_cell u s) v = key_of s v"
  by (simp add: key_of_def)

lemma p_k_eq: "p_k u s = (key_of s u, p_cell u s)"
  by (simp add: p_k_def p_g_get p_rhs_get key_of_def Let_def)

lemma p_g_set:
  "v \<noteq> DBL_MIN \<Longrightarrow> p_g u v s = (v, s\<lparr>cell_hash := (cell_hash s)(u \<mapsto> (v, r_of s u))\<rparr>)"
  by (auto simp: p_g_def p_cell_def cell_hash_at_def r_of_def Let_def Math_INFINITY_def split: option.splits)

lemma p_rhs_set:
  "v \<noteq> DBL_MIN \<Longrightarrow> u \<noteq> goal s \<Longrightarrow> p_rhs u v s = (v, s\<lparr>cell_hash := (cell_hash s)(u \<mapsto> (g_of s u, v))\<rparr>)"
  by (auto simp: p_rhs_def p_cell_def cell_hash_at_def g_of_def Let_def Math_INFINITY_def split: option.splits)

lemma p_rhs_goal: "u = goal s \<Longrightarrow> p_rhs u v s = (Finite 0, s)"
  by (simp add: p_rhs_def)

section \<open>Updating the goal\<close>

text \<open>C7: a call \<^verbatim>\<open>update(u, c)\<close> with \<open>u\<close> the goal returns at once and leaves the
  whole state as it was: km, last, the stored pairs, the open list and hash, the path and
  the cost of \<open>u\<close>.\<close>

theorem update_goal_ignored: "u = goal s \<Longrightarrow> update u c s = Inr s"
  by (simp add: update_def)

lemma Planner_eq:
  "Planner m st gl =
     \<lparr>cells = m, open_list = [Node 0 (p_h m st gl, Finite 0) gl], open_hash = [gl \<mapsto> 0],
       next_node = Suc 0, cell_hash = [gl \<mapsto> (Math_INFINITY, Math_INFINITY)], path = [],
       km = Finite 0, start = st, goal = gl, last_cell = st\<rparr>"
  apply (simp add: Planner_def p_rhs_goal p_k_eq p_list_insert_def key_of_def g_of_def rhs_of_def
      Math_less_def p_cell_def Math_INFINITY_def)
  apply (simp add: p_h_def Let_def)
  done

theorem update_goal_ignored_witness:
  "goal (Planner line3 1 0) = 0 \<and> update 0 (Finite 5) (Planner line3 1 0) = Inr (Planner line3 1 0)"
  using update_goal_ignored [of 0 "Planner line3 1 0" "Finite 5"]
  by (simp add: Planner_eq)

section \<open>Construction\<close>

text \<open>C8: after construction with a map, a start and a goal, km is 0, last is the
  start, the path is empty, g and rhs of every cell but the goal read as infinity, rhs of
  the goal reads as 0, and the open list holds the goal alone, with the key
  (h(start, goal), 0).\<close>

theorem Planner_initial:
  "km (Planner m st gl) = Finite 0 \<and> last_cell (Planner m st gl) = st \<and>
   start (Planner m st gl) = st \<and> goal (Planner m st gl) = gl \<and>
   path (Planner m st gl) = [] \<and>
   (\<forall>u. u \<noteq> gl \<longrightarrow>
        fst (p_g u DBL_MIN (Planner m st gl)) = Math_INFINITY \<and>
        fst (p_rhs u DBL_MIN (Planner m st gl)) = Math_INFINITY) \<and>
   fst (p_rhs gl DBL_MIN (Planner m st gl)) = Finite 0 \<and>
   map (\<lambda>n. (node_key n, node_cell n)) (open_list (Planner m st gl))
     = [((p_h m st gl, Finite 0), gl)] \<and>
   dom (open_hash (Planner m st gl)) = {gl}"
  by (simp add: p_g_get p_rhs_get g_of_def rhs_of_def r_of_def Planner_eq)

theorem Planner_initial_witness:
  "km (Planner line3 1 0) = Finite 0 \<and> last_cell (Planner line3 1 0) = 1 \<and>
   path (Planner line3 1 0) = [] \<and>
   fst (p_g 2 DBL_MIN (Planner line3 1 0)) = Math_INFINITY \<and>
   fst (p_rhs 2 DBL_MIN (Planner line3 1 0)) = Math_INFINITY \<and>
   fst (p_rhs 0 DBL_MIN (Planner line3 1 0)) = Finite 0 \<and>
   map (\<lambda>n. (node_key n, node_cell n)) (open_list (Planner line3 1 0)) = [((Finite 1, Finite 0), 0)]"
proof -
  have h: "p_h line3 1 0 = Finite 1"
    by (simp add: p_h_def line3_def)
  have "(2::nat) \<noteq> 0" by simp
  with Planner_initial [of line3 1 0] h show ?thesis by simp
qed

section \<open>The sentinel of the accessors\<close>

text \<open>C10, as amended: called with \<^verbatim>\<open>DBL_MIN\<close>, \<^verbatim>\<open>_g\<close> stores the pair of infinities
  for a cell without a stored pair, overwrites nothing and returns the stored g; so does
  \<^verbatim>\<open>_rhs\<close> for every cell but the goal; for the goal \<^verbatim>\<open>_rhs\<close> returns 0 whatever the
  value, and stores nothing, not even the pair of infinities. A store without
  \<^verbatim>\<open>DBL_MIN\<close> stays so through every call of the two accessors.\<close>

theorem sentinel_reads:
  "p_g u DBL_MIN s =
     (case cell_hash s u of
        Some p \<Rightarrow> (fst p, s)
      | None \<Rightarrow> (Math_INFINITY, s\<lparr>cell_hash := (cell_hash s)(u \<mapsto> (Math_INFINITY, Math_INFINITY))\<rparr>)) \<and>
   (u \<noteq> goal s \<longrightarrow>
      p_rhs u DBL_MIN s =
        (case cell_hash s u of
           Some p \<Rightarrow> (snd p, s)
         | None \<Rightarrow> (Math_INFINITY, s\<lparr>cell_hash := (cell_hash s)(u \<mapsto> (Math_INFINITY, Math_INFINITY))\<rparr>))) \<and>
   (u = goal s \<longrightarrow> p_rhs u v s = (Finite 0, s)) \<and>
   (no_DBL_MIN s \<longrightarrow> no_DBL_MIN (snd (p_g u v s)) \<and> no_DBL_MIN (snd (p_rhs u v s)))"
proof (intro conjI impI)
  show "p_g u DBL_MIN s =
     (case cell_hash s u of
        Some p \<Rightarrow> (fst p, s)
      | None \<Rightarrow> (Math_INFINITY, s\<lparr>cell_hash := (cell_hash s)(u \<mapsto> (Math_INFINITY, Math_INFINITY))\<rparr>))"
    by (simp add: p_g_get g_of_def p_cell_def split: option.splits)
  show "p_rhs u DBL_MIN s =
        (case cell_hash s u of
           Some p \<Rightarrow> (snd p, s)
         | None \<Rightarrow> (Math_INFINITY, s\<lparr>cell_hash := (cell_hash s)(u \<mapsto> (Math_INFINITY, Math_INFINITY))\<rparr>))"
    if "u \<noteq> goal s"
    using that by (simp add: p_rhs_get rhs_of_def r_of_def p_cell_def split: option.splits)
  show "p_rhs u v s = (Finite 0, s)" if "u = goal s"
    using that by (rule p_rhs_goal)
  show "no_DBL_MIN (snd (p_g u v s))" if "no_DBL_MIN s"
    using that
    by (cases "v = DBL_MIN")
       (auto simp: p_g_get p_g_set no_DBL_MIN_def p_cell_def r_of_def split: option.splits if_splits)
  show "no_DBL_MIN (snd (p_rhs u v s))" if "no_DBL_MIN s"
    using that
    by (cases "v = DBL_MIN"; cases "u = goal s")
       (auto simp: p_rhs_get p_rhs_set p_rhs_goal no_DBL_MIN_def p_cell_def g_of_def split: option.splits if_splits)
qed

lemma no_DBL_MIN_Planner: "no_DBL_MIN (Planner m st gl)"
  by (simp add: no_DBL_MIN_def Planner_eq)

theorem sentinel_reads_witness:
  "cell_hash (Planner line3 1 0) 2 = None \<and> goal (Planner line3 1 0) = 0 \<and>
   p_g 2 DBL_MIN (Planner line3 1 0)
     = (Math_INFINITY,
        (Planner line3 1 0)\<lparr>cell_hash :=
           (cell_hash (Planner line3 1 0))(2 \<mapsto> (Math_INFINITY, Math_INFINITY))\<rparr>) \<and>
   p_rhs 2 DBL_MIN (Planner line3 1 0)
     = (Math_INFINITY,
        (Planner line3 1 0)\<lparr>cell_hash :=
           (cell_hash (Planner line3 1 0))(2 \<mapsto> (Math_INFINITY, Math_INFINITY))\<rparr>) \<and>
   p_rhs 0 (Finite 7) (Planner line3 1 0) = (Finite 0, Planner line3 1 0) \<and>
   no_DBL_MIN (Planner line3 1 0) \<and>
   no_DBL_MIN (snd (p_g 2 DBL_MIN (Planner line3 1 0))) \<and>
   no_DBL_MIN (snd (p_rhs 2 DBL_MIN (Planner line3 1 0)))"
proof -
  have f: "cell_hash (Planner line3 1 0) 2 = None" "goal (Planner line3 1 0) = 0"
    by (simp_all add: Planner_eq)
  have n: "no_DBL_MIN (Planner line3 1 0)"
    by (rule no_DBL_MIN_Planner)
  from sentinel_reads [of 2 "Planner line3 1 0" DBL_MIN] f
  have a: "p_g 2 DBL_MIN (Planner line3 1 0)
     = (Math_INFINITY,
        (Planner line3 1 0)\<lparr>cell_hash :=
           (cell_hash (Planner line3 1 0))(2 \<mapsto> (Math_INFINITY, Math_INFINITY))\<rparr>)"
    "p_rhs 2 DBL_MIN (Planner line3 1 0)
     = (Math_INFINITY,
        (Planner line3 1 0)\<lparr>cell_hash :=
           (cell_hash (Planner line3 1 0))(2 \<mapsto> (Math_INFINITY, Math_INFINITY))\<rparr>)"
    by simp_all
  from sentinel_reads [of 2 "Planner line3 1 0" DBL_MIN] n
  have c: "no_DBL_MIN (snd (p_g 2 DBL_MIN (Planner line3 1 0)))"
    "no_DBL_MIN (snd (p_rhs 2 DBL_MIN (Planner line3 1 0)))"
    by blast+
  from sentinel_reads [of 0 "Planner line3 1 0" "Finite 7"] f
  have b: "p_rhs 0 (Finite 7) (Planner line3 1 0) = (Finite 0, Planner line3 1 0)"
    by simp
  from f n a b c show ?thesis by blast
qed

text \<open>The claim C10 as it stands fails where \<^verbatim>\<open>_rhs\<close> is called for the goal: with the
  goal set to the cell 2, which has no stored pair, the call stores none.\<close>

theorem sentinel_rhs_goal_counterexample:
  "cell_hash (snd (goal_acc (Some 2) (Planner line3 1 0))) 2 = None \<and>
   cell_hash (snd (p_rhs 2 DBL_MIN (snd (goal_acc (Some 2) (Planner line3 1 0))))) 2 = None"
  by (simp add: goal_acc_def Planner_eq p_rhs_goal)

section \<open>When the repair loop ends\<close>

lemma loop_cond_eq:
  "loop_cond s =
     ((open_list s \<noteq> [] \<and> KeyCompare (node_key (hd (open_list s))) (key_of s (start s)))
        \<or> \<not> Math_equals (rhs_of s (start s)) (g_of s (start s)),
      p_cell (start s) s)"
  by (cases "open_list s") (auto simp: loop_cond_def p_k_eq p_rhs_get p_g_get Let_def)

text \<open>C2, as amended: \<^verbatim>\<open>_compute\<close> returns false when the open list is empty on entry.
  At the head of the loop, whatever the step counter, the loop ends with true when
  rhs(start) equals g(start) under tolerant comparison and the open list is empty or its
  first key is not less than k(start); so a call with a list that is not empty returns
  true at once when the first key is not less than k(start) and rhs(start) equals
  g(start).\<close>

theorem compute_returns:
  "(open_list s = [] \<longrightarrow> p_compute m s = Inr (False, s)) \<and>
   ((open_list s = [] \<or> \<not> KeyCompare (node_key (hd (open_list s))) (fst (p_k (start s) s))) \<and>
    Math_equals (fst (p_rhs (start s) DBL_MIN s)) (fst (p_g (start s) DBL_MIN s))
      \<longrightarrow> compute_loop m n s = Inr (True, p_cell (start s) s)) \<and>
   (open_list s \<noteq> [] \<and> \<not> KeyCompare (node_key (hd (open_list s))) (fst (p_k (start s) s)) \<and>
    Math_equals (fst (p_rhs (start s) DBL_MIN s)) (fst (p_g (start s) DBL_MIN s))
      \<longrightarrow> p_compute m s = Inr (True, p_cell (start s) s))"
  by (auto simp: p_compute_def compute_loop.simps [of m _ s] loop_cond_eq p_k_eq p_rhs_get p_g_get)

section \<open>Runs on the example maps\<close>

lemma DBL_MIN_numeral [simp]:
  "1 \<le> x \<Longrightarrow> Finite x \<noteq> DBL_MIN" "1 \<le> x \<Longrightarrow> DBL_MIN \<noteq> Finite x"
  by (auto simp: DBL_MIN_def field_simps)

lemmas run_simps = Planner_def p_g_get p_rhs_get p_k_eq p_g_set p_rhs_set p_rhs_goal loop_cond_eq
  g_of_def r_of_def rhs_of_def key_of_def p_cell_def p_h_def p_cost_def
  p_list_insert_def p_list_remove_def p_list_update_def p_update_def compute_step_def
  retract_cell_def p_compute_def replan_def p_min_succ_def Let_def
  Math_less_def Math_greater_def KeyCompare_def Math_INFINITY_def Math_EPSILON_def
  COST_UNWALKABLE_def dmin_def ol_insert_hint_def
  line3_def line4_def MAX_STEPS_def goal_acc_def start_acc_def update_def wall3_def
  compute_loop.simps follow.simps replan_path_def raise_and_restore_def
  fun_upd_idem_iff numeral_2_eq_2 [symmetric] numeral_3_eq_3 [symmetric]

lemma replan_line3_far: "replan m (Planner line3 2 0) = Some (Inr (True, line3_drained))"
  by (simp add: run_simps line3_drained_def)

lemma compute_line3_drained: "p_compute m line3_drained = Inr (False, line3_drained)"
  by (simp add: p_compute_def line3_drained_def)

lemma replan_line3_drained:
  "replan m line3_drained = Some (Inr (False, line3_drained\<lparr>path := []\<rparr>))"
  by (simp add: replan_def p_compute_def line3_drained_def)

lemma raise_and_restore_line3_drained:
  "raise_and_restore 1 (Finite 1) line3_drained = Inr line3_drained"
  by (simp add: run_simps line3_drained_def)

lemma replan_line3_mid: "replan m (Planner line3 1 0) = Some (Inr (True, line3_mid))"
  by (simp add: run_simps line3_mid_def)

lemma update_line3_mid:
  "update 0 (Finite 1) (snd (goal_acc (Some 1) line3_mid)) = Inr line3_under"
  by (simp add: run_simps line3_mid_def line3_under_def)

text \<open>The claim C2 as it stands fails: called with the empty open list that the first
  \<^verbatim>\<open>replan()\<close> on the row leaves, \<^verbatim>\<open>_compute\<close> returns false.\<close>

theorem compute_empty_counterexample:
  "open_list line3_drained = [] \<and>
   p_compute (Finite 0) line3_drained = Inr (False, line3_drained)"
  using compute_line3_drained [of "Finite 0"] by (simp add: line3_drained_def)

text \<open>The amended C2 on the two planners of the row: the drained one returns false on
  entry, and its loop would end with true; the one with a cell left on the open list
  returns true at once.\<close>

theorem compute_returns_witness:
  "open_list line3_drained = [] \<and>
   p_compute (Finite 0) line3_drained = Inr (False, line3_drained) \<and>
   Math_equals (fst (p_rhs (start line3_drained) DBL_MIN line3_drained))
     (fst (p_g (start line3_drained) DBL_MIN line3_drained)) \<and>
   compute_loop (Finite 0) 5 line3_drained = Inr (True, line3_drained) \<and>
   open_list line3_mid \<noteq> [] \<and>
   \<not> KeyCompare (node_key (hd (open_list line3_mid))) (fst (p_k (start line3_mid) line3_mid)) \<and>
   Math_equals (fst (p_rhs (start line3_mid) DBL_MIN line3_mid))
     (fst (p_g (start line3_mid) DBL_MIN line3_mid)) \<and>
   p_compute (Finite 0) line3_mid = Inr (True, line3_mid)"
proof -
  have d: "open_list line3_drained = []"
    "Math_equals (fst (p_rhs (start line3_drained) DBL_MIN line3_drained))
       (fst (p_g (start line3_drained) DBL_MIN line3_drained))"
    "p_cell (start line3_drained) line3_drained = line3_drained"
    by (simp_all add: line3_drained_def p_g_get p_rhs_get g_of_def rhs_of_def r_of_def
          p_cell_def Math_EPSILON_def)
  have m: "open_list line3_mid \<noteq> []"
    "\<not> KeyCompare (node_key (hd (open_list line3_mid))) (fst (p_k (start line3_mid) line3_mid))"
    "Math_equals (fst (p_rhs (start line3_mid) DBL_MIN line3_mid))
       (fst (p_g (start line3_mid) DBL_MIN line3_mid))"
    "p_cell (start line3_mid) line3_mid = line3_mid"
    by (simp_all add: line3_mid_def p_g_get p_rhs_get p_k_eq key_of_def g_of_def rhs_of_def
          r_of_def p_cell_def Math_EPSILON_def KeyCompare_def Math_less_def Math_greater_def
          p_h_def line3_def Let_def)
  from compute_returns [of line3_drained "Finite 0" 5] d
  have 1: "p_compute (Finite 0) line3_drained = Inr (False, line3_drained)"
    "compute_loop (Finite 0) 5 line3_drained = Inr (True, line3_drained)"
    by simp_all
  from compute_returns [of line3_mid "Finite 0" 0] m
  have 2: "p_compute (Finite 0) line3_mid = Inr (True, line3_mid)"
    by simp
  from d m 1 2 show ?thesis by blast
qed

section \<open>A failed path extraction\<close>

lemma replan_line4: "replan m (Planner line4 2 0) = Some (Inr (True, line4_found))"
  by (simp add: run_simps line4_found_def)

lemma update_line4_found: "update 1 COST_UNWALKABLE line4_found = Inr line4_blocked"
  by (simp add: run_simps line4_found_def line4_blocked_def)

text \<open>C3 fails on the code. On the row with the unwalkable middle cell, \<^verbatim>\<open>replan()\<close>
  returns false and \<^verbatim>\<open>path()\<close> returns the start cell. On the four cells, after a
  first \<^verbatim>\<open>replan()\<close> that finds the path and the \<^verbatim>\<open>update\<close> that makes the cell at (1,0)
  unwalkable, \<^verbatim>\<open>replan()\<close> returns false and \<^verbatim>\<open>path()\<close> returns the start cell and a
  null pointer.\<close>

theorem replan_failed_keeps_path:
  "replan_path (Finite 0) (Planner wall3 2 0) = Some (Inr (False, [Some 2])) \<and>
   replan (Finite 0) (Planner line4 2 0) = Some (Inr (True, line4_found)) \<and>
   update 1 COST_UNWALKABLE line4_found = Inr line4_blocked \<and>
   replan_path (Finite 0) line4_blocked = Some (Inr (False, [Some 2, None]))"
proof -
  have "replan_path (Finite 0) (Planner wall3 2 0) = Some (Inr (False, [Some 2]))"
    by (simp add: run_simps)
  moreover have "replan_path (Finite 0) line4_blocked = Some (Inr (False, [Some 2, None]))"
    by (simp add: run_simps line4_found_def line4_blocked_def)
  ultimately show ?thesis
    using replan_line4 [of "Finite 0"] update_line4_found by simp
qed

section \<open>The front of an empty open list\<close>

text \<open>C4 fails on the code: after the first \<^verbatim>\<open>replan()\<close> on the row with the start at
  (1,0) and the goal at (0,0), the goal is set to (2,0) and the start to (0,0). The next
  \<^verbatim>\<open>replan()\<close> removes the only cell of the open list, rhs(start) and g(start) differ,
  and the loop body reads the front of the empty list.\<close>

theorem replan_reads_empty_list:
  "replan (Finite 0) (snd (start_acc (Some 0) (snd (goal_acc (Some 2) line3_mid))))
     = Some (Inl DerefEnd)"
  by (simp add: run_simps line3_mid_def)

section \<open>The underconsistent branch\<close>

text \<open>In the last branch of the loop body, a cell that is not the goal leaves the loop
  at once: its g is infinity and its stored rhs is what it was.\<close>

lemma retract_cell_breaks:
  "u \<noteq> goal s \<Longrightarrow>
   retract_cell m u s
     = Inr (Break, s\<lparr>cell_hash := (cell_hash s)(u \<mapsto> (Math_INFINITY, r_of s u))\<rparr>)"
  by (auto simp: retract_cell_def p_g_get p_g_set g_of_def r_of_def p_cell_def Let_def
        Math_INFINITY_def split: option.splits)

text \<open>C1 fails on the code: the cell at (0,0) leads the open list of \<open>line3_under\<close>, is
  not the goal, has a fresh key and a g that is not greater than its rhs. \<^verbatim>\<open>_compute\<close>
  sets its g to infinity and returns; its rhs still reads as infinity, while the cost
  to its neighbour at (1,0) plus the g of that neighbour is 2.\<close>

theorem compute_keeps_rhs:
  "node_cell (hd (open_list line3_under)) = 0 \<and> goal line3_under = 1 \<and>
   node_key (hd (open_list line3_under)) = fst (p_k 0 line3_under) \<and>
   \<not> Math_greater (fst (p_g 0 DBL_MIN line3_under)) (fst (p_rhs 0 DBL_MIN line3_under)) \<and>
   p_compute (Finite 0) line3_under
     = Inr (True, line3_under\<lparr>cell_hash := (cell_hash line3_under)(0 \<mapsto> (Infinity, Infinity))\<rparr>) \<and>
   cell_nbrs (cells line3_under 0) = [None, Some 1] \<and>
   dadd (p_cost (cells line3_under) 0 1) (fst (p_g 1 DBL_MIN line3_under)) = Finite 2"
  by (simp add: run_simps line3_under_def)

section \<open>The invariant through the operations\<close>

subsection \<open>The order of doubles\<close>

lemma dlt_irrefl [simp]: "\<not> dlt a a"
  by (cases a) auto

lemma dlt_trans: "dlt a b \<Longrightarrow> dlt b c \<Longrightarrow> dlt a c"
  by (cases a; cases b; cases c) auto

lemma dlt_total: "\<not> dlt a b \<Longrightarrow> a \<noteq> b \<Longrightarrow> dlt b a"
  by (cases a; cases b) auto

lemma dlt_asym: "dlt a b \<Longrightarrow> \<not> dlt b a"
  by (cases a; cases b) auto

lemma Math_equals_refl [simp]: "Math_equals a a"
  by (cases a) (auto simp: Math_EPSILON_def)

lemma not_dlt_dmin: "\<not> dlt g r \<Longrightarrow> \<not> dlt g (dmin r x)"
  by (cases g; cases r; cases x) (auto simp: dmin_def)

lemma greater_of_below: "\<not> dlt g r \<Longrightarrow> \<not> Math_equals g r \<Longrightarrow> Math_greater g r"
  by (cases "g = r") (auto simp: Math_greater_def dest: dlt_total)

subsection \<open>Lists of nodes\<close>

lemma set_ol_insert [simp]: "set (ol_insert n xs) = insert n (set xs)"
  by (induction xs) auto

lemma set_ol_insert_lower [simp]: "set (ol_insert_lower n xs) = insert n (set xs)"
  by (induction xs) auto

lemma set_ol_insert_hint [simp]: "set (ol_insert_hint pre post n) = insert n (set pre \<union> set post)"
  by (auto simp: ol_insert_hint_def)

lemma distinct_ol_insert [simp]:
  "distinct (map node_id (ol_insert n xs)) = (node_id n \<notin> node_id ` set xs \<and> distinct (map node_id xs))"
  by (induction xs) auto

lemma distinct_ol_insert_lower [simp]:
  "distinct (map node_id (ol_insert_lower n xs)) = (node_id n \<notin> node_id ` set xs \<and> distinct (map node_id xs))"
  by (induction xs) auto

lemma distinct_ol_insert_hint [simp]:
  "distinct (map node_id (ol_insert_hint pre post n))
     = (node_id n \<notin> node_id ` set (pre @ post) \<and> distinct (map node_id (pre @ post)))"
  by (auto simp: ol_insert_hint_def)

lemma ol_split_None: "(ol_split h xs = None) = (h \<notin> node_id ` set xs)"
  by (induction xs) (auto split: option.splits)

lemma ol_split_Some:
  "ol_split h xs = Some (pre, post) \<Longrightarrow>
   \<exists>n. xs = pre @ n # post \<and> node_id n = h"
  by (induction xs arbitrary: pre) (auto split: option.splits if_splits)

subsection \<open>The open list and its hash\<close>

lemma on_list_iff: "open_ok s \<Longrightarrow> (u \<in> on_list s) = (open_hash s u \<noteq> None)"
  unfolding open_ok_def on_list_def by auto

lemma p_list_insert_ok:
  assumes "open_ok s" "open_hash s u = None"
  shows "open_ok (p_list_insert u k s)"
    and "on_list (p_list_insert u k s) = insert u (on_list s)"
    and "same_store s (p_list_insert u k s)"
proof -
  from assms have lt: "\<And>n. n \<in> set (open_list s) \<Longrightarrow> node_id n < next_node s"
    unfolding open_ok_def by blast
  have fresh: "next_node s \<notin> node_id ` set (open_list s)"
    using lt by fastforce
  from assms have no: "\<And>n. n \<in> set (open_list s) \<Longrightarrow> node_cell n \<noteq> u"
    unfolding open_ok_def by force
  show "open_ok (p_list_insert u k s)"
    using assms(1) no fresh lt
    unfolding open_ok_def p_list_insert_def
    by (auto simp: less_Suc_eq)
  show "on_list (p_list_insert u k s) = insert u (on_list s)"
    by (simp add: on_list_def p_list_insert_def)
  show "same_store s (p_list_insert u k s)"
    by (simp add: same_store_def p_list_insert_def)
qed

lemma open_ok_split:
  assumes "open_ok s" "open_hash s u = Some h"
  obtains pre post k where "ol_split h (open_list s) = Some (pre, post)"
    and "open_list s = pre @ Node h k u # post"
    and "\<forall>x \<in> set (pre @ post). node_id x \<noteq> h \<and> node_cell x \<noteq> u"
proof -
  from assms have "u \<in> node_cell ` set (open_list s)"
    unfolding open_ok_def by auto
  then obtain m where m: "m \<in> set (open_list s)" "node_cell m = u"
    by auto
  with assms have mh: "node_id m = h"
    unfolding open_ok_def by auto
  with m have "h \<in> node_id ` set (open_list s)"
    by auto
  then obtain pre post where sp: "ol_split h (open_list s) = Some (pre, post)"
    using ol_split_None [of h "open_list s"] by (cases "ol_split h (open_list s)") auto
  then obtain n where n: "open_list s = pre @ n # post" "node_id n = h"
    using ol_split_Some by blast
  from assms(1) have d: "distinct (map node_id (open_list s))"
    unfolding open_ok_def by blast
  have hn: "\<And>x. x \<in> set (pre @ post) \<Longrightarrow> node_id x \<noteq> h"
    using d n by (auto simp: image_iff)
  have "m = n"
    using m(1) mh hn n(1) by auto
  with m(2) n(2) have nn: "n = Node h (node_key n) u"
    by (cases n) simp
  have un: "node_cell x \<noteq> u" if "x \<in> set (pre @ post)" for x
  proof
    assume "node_cell x = u"
    moreover from that n(1) have "x \<in> set (open_list s)" by auto
    ultimately have "node_id x = h"
      using assms unfolding open_ok_def by auto
    with hn that show False by blast
  qed
  from hn un have "\<forall>x \<in> set (pre @ post). node_id x \<noteq> h \<and> node_cell x \<noteq> u"
    by blast
  with sp n(1) nn show thesis
    using that [of pre post "node_key n"] by metis
qed

lemma p_list_remove_ok:
  assumes "open_ok s" "open_hash s u = Some h"
  obtains s' where "p_list_remove u s = Inr s'" "open_ok s'" "on_list s' = on_list s - {u}"
    "same_store s s'"
proof -
  from assms obtain pre post k where sp: "ol_split h (open_list s) = Some (pre, post)"
    and l: "open_list s = pre @ Node h k u # post"
    and hn: "\<forall>x \<in> set (pre @ post). node_id x \<noteq> h \<and> node_cell x \<noteq> u"
    by (rule open_ok_split)
  let ?s = "s\<lparr>open_list := pre @ post, open_hash := (open_hash s)(u := None)\<rparr>"
  have r: "p_list_remove u s = Inr ?s"
    by (simp add: p_list_remove_def assms(2) sp)
  have ok: "open_ok ?s"
    using assms(1) l hn
    unfolding open_ok_def
    by (auto simp: image_iff)
  have ol: "on_list ?s = on_list s - {u}"
    using l hn by (auto simp: on_list_def)
  have "same_store s ?s" by (simp add: same_store_def)
  with r ok ol show thesis using that by blast
qed

lemma p_list_update_ok:
  assumes "open_ok s" "open_hash s u = Some h"
  obtains s' where "p_list_update u k s = Inr s'" "open_ok s'" "on_list s' = on_list s"
    "same_store s s'"
proof -
  from assms obtain pre post k0 where sp: "ol_split h (open_list s) = Some (pre, post)"
    and l: "open_list s = pre @ Node h k0 u # post"
    and hn: "\<forall>x \<in> set (pre @ post). node_id x \<noteq> h \<and> node_cell x \<noteq> u"
    by (rule open_ok_split)
  let ?s = "s\<lparr>open_list := ol_insert_hint pre post (Node (next_node s) k u),
                open_hash := (open_hash s)(u \<mapsto> next_node s),
                next_node := Suc (next_node s)\<rparr>"
  have r: "p_list_update u k s = Inr ?s"
    by (simp add: p_list_update_def assms(2) sp)
  from assms(1) have lt: "\<And>n. n \<in> set (open_list s) \<Longrightarrow> node_id n < next_node s"
    unfolding open_ok_def by blast
  have fresh: "next_node s \<notin> node_id ` set (pre @ post)"
    using lt l by fastforce
  have ok: "open_ok ?s"
    using assms(1) l hn fresh lt
    unfolding open_ok_def
    by (auto simp: image_iff less_Suc_eq)
  have ol: "on_list ?s = on_list s"
    using l by (auto simp: on_list_def)
  have "same_store s ?s" by (simp add: same_store_def)
  with r ok ol show thesis using that by blast
qed

subsection \<open>States that read the same\<close>

lemma same_reads_refl [simp]: "same_reads s s"
  by (simp add: same_reads_def)

lemma same_reads_trans: "same_reads s t \<Longrightarrow> same_reads t u \<Longrightarrow> same_reads s u"
  by (simp add: same_reads_def)

lemma same_store_reads: "same_store s s' \<Longrightarrow> same_reads s s'"
  by (auto simp: same_store_def same_reads_def g_of_def r_of_def)

lemma same_reads_rhs_of: "same_reads s s' \<Longrightarrow> rhs_of s' = rhs_of s"
  by (auto simp: same_reads_def rhs_of_def)

lemma same_reads_p_cell [simp]: "same_reads s (p_cell u s)"
  by (auto simp: same_reads_def)

lemma no_DBL_MIN_reads:
  "no_DBL_MIN s = (\<forall>c. g_of s c \<noteq> DBL_MIN \<and> r_of s c \<noteq> DBL_MIN)"
  unfolding no_DBL_MIN_def g_of_def r_of_def
  by (auto split: option.splits)

lemma Inv_but_transfer:
  assumes "Inv_but v s" "open_ok s'" "on_list s' = on_list s" "same_reads s s'"
  shows "Inv_but v s'"
  using assms same_reads_rhs_of [OF assms(4)]
  unfolding Inv_but_def rhs_below_def no_DBL_MIN_reads same_reads_def
  by auto

lemma Inv_Inv_but: "Inv s \<Longrightarrow> Inv_but v s"
  unfolding Inv_def Inv_but_def queue_matches_def by auto

lemma Inv_butI:
  "Inv_but v s \<Longrightarrow> (v \<in> on_list s) = (\<not> Math_equals (g_of s v) (rhs_of s v)) \<Longrightarrow> Inv s"
  unfolding Inv_def Inv_but_def queue_matches_def by auto

lemma open_ok_p_cell [simp]: "open_ok (p_cell u s) = open_ok s"
  by (simp add: open_ok_def)

lemma on_list_p_cell [simp]: "on_list (p_cell u s) = on_list s"
  by (simp add: on_list_def)

lemma Inv_but_p_cell: "Inv_but v s \<Longrightarrow> Inv_but v (p_cell u s)"
  using Inv_but_transfer [of v s "p_cell u s"] by (simp add: Inv_but_def)

lemma p_rhs_get_cell [simp]: "p_rhs u DBL_MIN (p_cell u s) = (rhs_of s u, p_cell u s)"
  by (simp add: p_rhs_get)

lemma p_update_eq:
  "p_update u s =
     (if \<not> Math_equals (g_of s u) (rhs_of s u)
      then (if open_hash s u \<noteq> None then p_list_update u (key_of s u) (p_cell u s)
            else Inr (p_list_insert u (key_of s u) (p_cell u s)))
      else if open_hash s u \<noteq> None then p_list_remove u (p_cell u s)
      else Inr (p_cell u s))"
  by (simp add: p_update_def p_g_get p_k_eq Let_def)

lemma p_update_restores:
  assumes "Inv_but v s"
  obtains s' where "p_update v s = Inr s'" "Inv s'" "same_reads s s'"
proof -
  let ?s = "p_cell v s"
  have b: "Inv_but v ?s" using assms by (rule Inv_but_p_cell)
  then have ok: "open_ok ?s" by (simp add: Inv_but_def)
  have rd: "g_of ?s v = g_of s v" "rhs_of ?s v = rhs_of s v" by simp_all
  show thesis
  proof (cases "open_hash s v")
    case None
    then have nl: "v \<notin> on_list ?s" using ok on_list_iff [of ?s v] by simp
    show thesis
    proof (cases "Math_equals (g_of s v) (rhs_of s v)")
      case True
      with None have "p_update v s = Inr ?s" by (simp add: p_update_eq)
      moreover have "Inv ?s" using b nl True rd by (intro Inv_butI) auto
      ultimately show thesis using that by simp
    next
      case False
      let ?t = "p_list_insert v (key_of s v) ?s"
      from None False have r: "p_update v s = Inr ?t" by (simp add: p_update_eq)
      from None have h: "open_hash ?s v = None" by simp
      note i = p_list_insert_ok [OF ok h, of "key_of s v"]
      have sr: "same_reads ?s ?t" using i(3) by (rule same_store_reads)
      then have sr': "same_reads s ?t" using same_reads_trans same_reads_p_cell by blast
      have "Inv_but v ?t"
        using b i(1) i(2) sr same_reads_rhs_of [OF sr]
        unfolding Inv_but_def rhs_below_def no_DBL_MIN_reads same_reads_def by auto
      moreover have "v \<in> on_list ?t" using i(2) by simp
      moreover have "\<not> Math_equals (g_of ?t v) (rhs_of ?t v)"
        using False sr' same_reads_rhs_of [OF sr'] by (simp add: same_reads_def)
      ultimately have "Inv ?t" by (intro Inv_butI) auto
      with r sr' show thesis using that by blast
    qed
  next
    case (Some h)
    then have h: "open_hash ?s v = Some h" by simp
    then have il: "v \<in> on_list ?s" using ok on_list_iff [of ?s v] by simp
    show thesis
    proof (cases "Math_equals (g_of s v) (rhs_of s v)")
      case True
      from ok h obtain t where t: "p_list_remove v ?s = Inr t" "open_ok t"
        "on_list t = on_list ?s - {v}" "same_store ?s t"
        by (rule p_list_remove_ok)
      from Some True t(1) have r: "p_update v s = Inr t" by (simp add: p_update_eq)
      have sr: "same_reads ?s t" using t(4) by (rule same_store_reads)
      then have sr': "same_reads s t" using same_reads_trans same_reads_p_cell by blast
      have "Inv_but v t"
        using b t(2) t(3) sr same_reads_rhs_of [OF sr]
        unfolding Inv_but_def rhs_below_def no_DBL_MIN_reads same_reads_def by auto
      moreover have "v \<notin> on_list t" using t(3) by simp
      moreover have "Math_equals (g_of t v) (rhs_of t v)"
        using True sr' same_reads_rhs_of [OF sr'] by (simp add: same_reads_def)
      ultimately have "Inv t" by (intro Inv_butI) auto
      with r sr' show thesis using that by blast
    next
      case False
      from ok h obtain t where t: "p_list_update v (key_of s v) ?s = Inr t" "open_ok t"
        "on_list t = on_list ?s" "same_store ?s t"
        by (rule p_list_update_ok)
      from Some False t(1) have r: "p_update v s = Inr t" by (simp add: p_update_eq)
      have sr: "same_reads ?s t" using t(4) by (rule same_store_reads)
      then have sr': "same_reads s t" using same_reads_trans same_reads_p_cell by blast
      have "Inv_but v t"
        using b t(2) t(3) sr by (rule Inv_but_transfer)
      moreover have "v \<in> on_list t" using t(3) il by simp
      moreover have "\<not> Math_equals (g_of t v) (rhs_of t v)"
        using False sr' same_reads_rhs_of [OF sr'] by (simp add: same_reads_def)
      ultimately have "Inv t" by (intro Inv_butI) auto
      with r sr' show thesis using that by blast
    qed
  qed
qed

lemma reads_set_pair:
  "g_of (s\<lparr>cell_hash := (cell_hash s)(v \<mapsto> (a, b))\<rparr>) u = (if u = v then a else g_of s u)"
  "r_of (s\<lparr>cell_hash := (cell_hash s)(v \<mapsto> (a, b))\<rparr>) u = (if u = v then b else r_of s u)"
  "rhs_of (s\<lparr>cell_hash := (cell_hash s)(v \<mapsto> (a, b))\<rparr>) u
     = (if u = v \<and> v \<noteq> goal s then b else rhs_of s u)"
  by (simp_all add: g_of_def r_of_def rhs_of_def)

lemma open_ok_cell_hash [simp]: "open_ok (s\<lparr>cell_hash := h\<rparr>) = open_ok s"
  by (simp add: open_ok_def)

lemma on_list_cell_hash [simp]: "on_list (s\<lparr>cell_hash := h\<rparr>) = on_list s"
  by (simp add: on_list_def)

lemma Inv_p_cell: "Inv s \<Longrightarrow> Inv (p_cell u s)"
  unfolding Inv_def queue_matches_def rhs_below_def no_DBL_MIN_reads by simp

lemma p_rhs_sets_Inv_but:
  assumes "Inv s" "\<not> dlt (g_of s v) x"
  shows "Inv_but v (snd (p_rhs v x s))"
proof (cases "v = goal s")
  case True
  then show ?thesis using assms(1) by (simp add: p_rhs_goal Inv_Inv_but)
next
  case ng: False
  show ?thesis
  proof (cases "x = DBL_MIN")
    case True
    then show ?thesis using assms(1) ng by (simp add: p_rhs_get Inv_Inv_but Inv_but_p_cell)
  next
    case False
    then show ?thesis
      using assms ng
      unfolding Inv_def Inv_but_def queue_matches_def rhs_below_def no_DBL_MIN_reads
      by (auto simp: p_rhs_set reads_set_pair)
  qed
qed

lemma lower_nbrs_Inv:
  "Inv s \<Longrightarrow> \<exists>s'. lower_nbrs u ns s = Inr s' \<and> Inv s'"
proof (induction ns arbitrary: s)
  case Nil
  then show ?case by simp
next
  case (Cons a ns)
  show ?case
  proof (cases a)
    case None
    then show ?thesis using Cons by simp
  next
    case (Some v)
    define s3 where "s3 =
            (if v \<noteq> goal s
             then
               (let (r, s1) = p_rhs v DBL_MIN s;
                    c = p_cost (cells s1) v u;
                    (g, s2) = p_g u DBL_MIN s1
                in snd (p_rhs v (dmin r (dadd c g)) s2))
             else s)"
    have "Inv_but v s3"
    proof (cases "v = goal s")
      case True
      then show ?thesis using Cons.prems by (simp add: s3_def Inv_Inv_but)
    next
      case False
      let ?t = "p_cell u (p_cell v s)"
      have it: "Inv ?t" using Cons.prems by (simp add: Inv_p_cell)
      have "\<not> dlt (g_of s v) (rhs_of s v)"
        using Cons.prems by (simp add: Inv_def rhs_below_def)
      then have nd: "\<not> dlt (g_of ?t v) (dmin (rhs_of s v) (dadd (p_cost (cells s) v u) (g_of s u)))"
        by (simp add: not_dlt_dmin)
      from False have "s3 = snd (p_rhs v (dmin (rhs_of s v) (dadd (p_cost (cells s) v u) (g_of s u))) ?t)"
        by (simp add: s3_def p_rhs_get p_g_get Let_def)
      with p_rhs_sets_Inv_but [OF it nd] show ?thesis by simp
    qed
    then obtain s4 where s4: "p_update v s3 = Inr s4" "Inv s4"
      by (rule p_update_restores)
    from Cons.IH [OF s4(2)] obtain s' where "lower_nbrs u ns s4 = Inr s'" "Inv s'"
      by blast
    with s4(1) Some show ?thesis
      by (simp add: s3_def [symmetric] Let_def)
  qed
qed

lemma Math_equals_sym: "Math_equals a b = Math_equals b a"
  by (cases a; cases b) (auto simp: abs_minus_commute)

lemma Inv_transfer:
  assumes "Inv s" "open_ok s'" "on_list s' = on_list s" "same_reads s s'"
  shows "Inv s'"
  using assms same_reads_rhs_of [OF assms(4)]
  unfolding Inv_def queue_matches_def rhs_below_def no_DBL_MIN_reads same_reads_def
  by auto

lemma p_g_sets_Inv_but:
  assumes "Inv s" "x \<noteq> DBL_MIN" "\<not> dlt x (rhs_of s v)"
  shows "Inv_but v (snd (p_g v x s))"
proof -
  have "v \<noteq> goal s \<Longrightarrow> r_of s v = rhs_of s v"
    by (simp add: rhs_of_def)
  with assms show ?thesis
    unfolding Inv_def Inv_but_def queue_matches_def rhs_below_def no_DBL_MIN_reads
    by (auto simp: p_g_set reads_set_pair)
qed

lemma rhs_of_not_DBL_MIN: "no_DBL_MIN s \<Longrightarrow> rhs_of s u \<noteq> DBL_MIN"
  by (simp add: no_DBL_MIN_reads rhs_of_def)

lemma compute_step_eq:
  "compute_step m s =
     (case open_list s of
        [] \<Rightarrow> Inl DerefEnd
      | n # _ \<Rightarrow>
          if KeyCompare (node_key n) (key_of s (node_cell n))
          then (case p_list_update (node_cell n) (key_of s (node_cell n)) (p_cell (node_cell n) s) of
                  Inl e \<Rightarrow> Inl e
                | Inr s2 \<Rightarrow> Inr (Continue, s2))
          else if Math_greater (g_of s (node_cell n)) (rhs_of s (node_cell n))
          then (case p_list_remove (node_cell n)
                       (snd (p_g (node_cell n) (rhs_of s (node_cell n)) (p_cell (node_cell n) s))) of
                  Inl e \<Rightarrow> Inl e
                | Inr s6 \<Rightarrow>
                    (case lower_nbrs (node_cell n) (cell_nbrs (cells s6 (node_cell n))) s6 of
                       Inl e \<Rightarrow> Inl e
                     | Inr s7 \<Rightarrow> Inr (Continue, s7)))
          else retract_cell m (node_cell n) (p_cell (node_cell n) s))"
  by (simp add: compute_step_def p_k_eq p_g_get Let_def split: list.splits)

lemma compute_step_Inv:
  assumes "Inv s" "open_list s \<noteq> []"
  shows "\<exists>s'. compute_step m s = Inr (Continue, s') \<and> Inv s'"
proof -
  from assms(2) obtain n rest where l: "open_list s = n # rest"
    by (cases "open_list s") auto
  define u where "u = node_cell n"
  let ?s1 = "p_cell u s"
  from assms(1) have ok: "open_ok s" by (simp add: Inv_def)
  with l have hu: "open_hash s u = Some (node_id n)"
    by (simp add: open_ok_def u_def)
  have ul: "u \<in> on_list s" using l by (simp add: on_list_def u_def)
  have i1: "Inv ?s1" using assms(1) by (rule Inv_p_cell)
  have ok1: "open_ok ?s1" using ok by simp
  have hu1: "open_hash ?s1 u = Some (node_id n)" using hu by simp
  show ?thesis
  proof (cases "KeyCompare (node_key n) (key_of s u)")
    case True
    from ok1 hu1 obtain t where t: "p_list_update u (key_of s u) ?s1 = Inr t" "open_ok t"
      "on_list t = on_list ?s1" "same_store ?s1 t"
      by (rule p_list_update_ok)
    have "Inv t"
      using i1 t(2) t(3) same_store_reads [OF t(4)] by (rule Inv_transfer)
    moreover have "compute_step m s = Inr (Continue, t)"
      using True l t(1) by (simp add: compute_step_eq u_def)
    ultimately show ?thesis by blast
  next
    case False
    from assms(1) ul have ne: "\<not> Math_equals (g_of s u) (rhs_of s u)"
      by (simp add: Inv_def queue_matches_def)
    from assms(1) have "\<not> dlt (g_of s u) (rhs_of s u)"
      by (simp add: Inv_def rhs_below_def)
    with ne have gr: "Math_greater (g_of s u) (rhs_of s u)"
      by (rule greater_of_below [rotated])
    let ?r = "rhs_of s u"
    define s5 where "s5 = snd (p_g u ?r ?s1)"
    from assms(1) have rn: "?r \<noteq> DBL_MIN"
      by (simp add: Inv_def rhs_of_not_DBL_MIN)
    have b5: "Inv_but u s5"
      unfolding s5_def using i1 rn by (rule p_g_sets_Inv_but) simp
    have e5: "s5 = ?s1\<lparr>cell_hash := (cell_hash ?s1)(u \<mapsto> (?r, r_of ?s1 u))\<rparr>"
      using rn by (simp add: s5_def p_g_set)
    have c5: "p_cell u s5 = s5" by (simp add: e5 p_cell_def)
    have h5: "open_hash s5 u \<noteq> None" using hu by (simp add: e5)
    have q5: "Math_equals (g_of s5 u) (rhs_of s5 u)"
      by (simp add: e5 reads_set_pair rhs_of_def)
    from h5 q5 c5 have "p_update u s5 = p_list_remove u s5"
      by (simp add: p_update_eq)
    with p_update_restores [OF b5] obtain s6 where s6: "p_list_remove u s5 = Inr s6" "Inv s6"
      by metis
    from lower_nbrs_Inv [OF s6(2)] obtain s7
      where s7: "lower_nbrs u (cell_nbrs (cells s6 u)) s6 = Inr s7" "Inv s7"
      by blast
    have "compute_step m s = Inr (Continue, s7)"
      using False gr l s6(1) s7(1) by (simp add: compute_step_eq u_def [symmetric] s5_def [symmetric])
    with s7(2) show ?thesis by blast
  qed
qed

lemma loop_cond_Inv:
  assumes "Inv s" "fst (loop_cond s)"
  shows "open_list (snd (loop_cond s)) \<noteq> []"
proof
  assume e: "open_list (snd (loop_cond s)) = []"
  then have e': "open_list s = []" by (simp add: loop_cond_eq)
  with assms(2) have "\<not> Math_equals (g_of s (start s)) (rhs_of s (start s))"
    by (simp add: loop_cond_eq Math_equals_sym)
  with assms(1) have "start s \<in> on_list s"
    unfolding Inv_def queue_matches_def by blast
  with e' show False by (simp add: on_list_def)
qed

lemma compute_loop_Inv:
  "Inv s \<Longrightarrow> \<exists>b s'. compute_loop m n s = Inr (b, s') \<and> Inv s'"
proof (induction m n s rule: compute_loop.induct)
  case (1 m n s)
  let ?s1 = "snd (loop_cond s)"
  have i1: "Inv ?s1" using "1.prems" by (simp add: loop_cond_eq Inv_p_cell)
  show ?case
  proof (cases "fst (loop_cond s)")
    case False
    with i1 show ?thesis by (auto simp: compute_loop.simps [of m n s])
  next
    case c: True
    show ?thesis
    proof (cases "MAX_STEPS < Suc n")
      case True
      with c i1 show ?thesis by (auto simp: compute_loop.simps [of m n s])
    next
      case False
      from "1.prems" c have "open_list ?s1 \<noteq> []" by (rule loop_cond_Inv)
      with i1 obtain s2 where s2: "compute_step m ?s1 = Inr (Continue, s2)" "Inv s2"
        using compute_step_Inv by blast
      from "1.IH" [OF c False s2(1) refl refl s2(2)]
      obtain b s' where "compute_loop m (Suc n) s2 = Inr (b, s')" "Inv s'"
        by blast
      with c False s2(1) show ?thesis by (auto simp: compute_loop.simps [of m n s])
    qed
  qed
qed

lemma Inv_path [simp]: "Inv (s\<lparr>path := p\<rparr>) = Inv s"
  by (simp add: Inv_def open_ok_def queue_matches_def on_list_def rhs_below_def no_DBL_MIN_def
        g_of_def rhs_of_def r_of_def)

lemma p_compute_Inv:
  "Inv s \<Longrightarrow> \<exists>b s'. p_compute m s = Inr (b, s') \<and> Inv s'"
  using compute_loop_Inv [of s m 0] by (auto simp: p_compute_def)

lemma min_succ_nbrs_Inv: "Inv s \<Longrightarrow> Inv (snd (min_succ_nbrs u ns c mc s))"
proof (induction ns arbitrary: s c mc)
  case Nil
  then show ?case by simp
next
  case (Cons a ns)
  then show ?case
    by (cases a) (simp_all add: p_g_get Let_def Inv_p_cell)
qed

lemma follow_Inv_aux:
  assumes "follow c0 s0 = Some y0"
  shows "Inv s0 \<longrightarrow> Inv (snd y0)"
proof (rule follow.raw_induct [OF _ assms, where P = "\<lambda>c s y. Inv s \<longrightarrow> Inv (snd y)"], goal_cases)
  case (1 follow' current s y)
  show ?case
  proof
    assume i: "Inv s"
    show "Inv (snd y)"
    proof (cases "current = Some (goal s)")
      case True
      with 1(2) i show ?thesis by auto
    next
      case ng: False
      show ?thesis
      proof (cases current)
        case None
        with 1(2) i show ?thesis by auto
      next
        case (Some c)
        show ?thesis
        proof (cases "Math_equals (fst (p_g c DBL_MIN s)) Math_INFINITY")
          case True
          with 1(2) ng Some i show ?thesis by (auto simp: p_g_get Inv_p_cell)
        next
          case False
          let ?r = "p_min_succ c (snd (p_g c DBL_MIN s))"
          from 1(2) ng Some False
          have "follow' (fst ?r) ((snd ?r)\<lparr>path := path (snd ?r) @ [fst ?r]\<rparr>) = Some y"
            by simp
          from 1(1) [OF this] i show ?thesis
            by (simp add: p_g_get p_min_succ_def Inv_p_cell min_succ_nbrs_Inv)
        qed
      qed
    qed
  qed
qed

lemma follow_Inv: "follow c s = Some y \<Longrightarrow> Inv s \<Longrightarrow> Inv (snd y)"
  using follow_Inv_aux by blast

lemma replan_Inv:
  assumes "Inv s"
  shows "replan m s \<noteq> Some (Inl e)"
    and "replan m s = Some (Inr (b, s')) \<Longrightarrow> Inv s'"
proof -
  from assms have "Inv (s\<lparr>path := []\<rparr>)" by simp
  then obtain r s1 where c: "p_compute m (s\<lparr>path := []\<rparr>) = Inr (r, s1)" "Inv s1"
    using p_compute_Inv by blast
  show "replan m s \<noteq> Some (Inl e)"
    using c(1) by (auto simp: replan_def split: option.splits)
  show "Inv s'" if "replan m s = Some (Inr (b, s'))"
  proof (cases r)
    case False
    with that c show ?thesis by (simp add: replan_def)
  next
    case True
    with that c(1) have "follow (Some (start s1)) (s1\<lparr>path := path s1 @ [Some (start s1)]\<rparr>) = Some (b, s')"
      by (auto simp: replan_def split: option.splits)
    from follow_Inv [OF this] c(2) show ?thesis by simp
  qed
qed

lemma Inv_fields [simp]:
  "Inv (s\<lparr>km := k\<rparr>) = Inv s" "Inv (s\<lparr>last_cell := l\<rparr>) = Inv s"
  "Inv (s\<lparr>cells := m\<rparr>) = Inv s" "Inv (s\<lparr>start := x\<rparr>) = Inv s"
  by (simp_all add: Inv_def open_ok_def queue_matches_def on_list_def rhs_below_def no_DBL_MIN_def
        g_of_def rhs_of_def r_of_def)

lemma update_Inv:
  assumes "Inv s"
  shows "\<exists>s'. update u c s = Inr s' \<and> Inv s'"
proof (cases "u = goal s")
  case True
  with assms show ?thesis by (simp add: update_def)
next
  case False
  let ?s3 = "(p_cell u (s\<lparr>km := dadd (km s) (p_h (cells s) (last_cell s) (start s)),
                last_cell := start s\<rparr>))"
  let ?s4 = "?s3\<lparr>cells := (cells ?s3)(u := (cells ?s3 u)\<lparr>cell_cost := c\<rparr>)\<rparr>"
  have "Inv ?s4" using assms by (simp add: Inv_p_cell)
  then have "Inv_but u ?s4" by (rule Inv_Inv_but)
  then obtain s' where "p_update u ?s4 = Inr s'" "Inv s'"
    by (rule p_update_restores)
  with False show ?thesis by (simp add: update_def Let_def)
qed

lemma Planner_Inv: "Inv (Planner m st gl)"
  unfolding Inv_def open_ok_def queue_matches_def on_list_def rhs_below_def no_DBL_MIN_def
  by (auto simp: Planner_eq g_of_def rhs_of_def r_of_def Math_INFINITY_def)

section \<open>The open list and local consistency\<close>

text \<open>C6, as amended: the constructor establishes, and \<^verbatim>\<open>replan\<close>, \<^verbatim>\<open>update\<close>, the
  setter of the start and the getter of the goal keep, the invariant \<open>Inv\<close>, under which
  every cell on the open list has g and rhs that differ under tolerant equality and
  every other cell has g and rhs that are equal (\<open>queue_matches\<close>); under it
  \<^verbatim>\<open>replan\<close> and \<^verbatim>\<open>update\<close> run into no undefined behaviour. The setter of the goal is
  left out.\<close>

theorem queue_matches_kept:
  "Inv (Planner m0 st gl) \<and>
   (Inv s \<longrightarrow> queue_matches s) \<and>
   (Inv s \<longrightarrow> (\<forall>e. replan m s \<noteq> Some (Inl e)) \<and>
              (\<forall>b s'. replan m s = Some (Inr (b, s')) \<longrightarrow> Inv s')) \<and>
   (Inv s \<longrightarrow> (\<exists>s'. update u c s = Inr s' \<and> Inv s')) \<and>
   (Inv s \<longrightarrow> Inv (snd (start_acc x s))) \<and>
   snd (goal_acc None s) = s"
proof (intro conjI impI allI)
  show "Inv (Planner m0 st gl)" by (rule Planner_Inv)
  show "queue_matches s" if "Inv s" using that by (simp add: Inv_def)
  show "replan m s \<noteq> Some (Inl e)" if "Inv s" for e using that by (rule replan_Inv)
  show "Inv s'" if "Inv s" "replan m s = Some (Inr (b, s'))" for b s'
    using that by (rule replan_Inv)
  show "\<exists>s'. update u c s = Inr s' \<and> Inv s'" if "Inv s" using that by (rule update_Inv)
  show "Inv (snd (start_acc x s))" if "Inv s"
    using that by (cases x) (simp_all add: start_acc_def)
  show "snd (goal_acc None s) = s" by (simp add: goal_acc_def)
qed

theorem queue_matches_kept_witness:
  "Inv (Planner line3 1 0) \<and>
   replan (Finite 0) (Planner line3 1 0) = Some (Inr (True, line3_mid)) \<and>
   Inv line3_mid \<and> queue_matches line3_mid \<and>
   Inv (projr (update 2 (Finite 5) line3_mid)) \<and>
   Inv (snd (start_acc (Some 2) line3_mid))"
proof -
  have r: "replan (Finite 0) (Planner line3 1 0) = Some (Inr (True, line3_mid))"
    by (rule replan_line3_mid)
  have p: "Inv (Planner line3 1 0)"
    using queue_matches_kept [of line3 1 0 line3_mid "Finite 0" 0 "Finite 0" None] by blast
  have i: "Inv line3_mid"
    using queue_matches_kept [of line3 1 0 "Planner line3 1 0" "Finite 0" 0 "Finite 0" None] p r
    by blast
  have q: "queue_matches line3_mid"
    using queue_matches_kept [of line3 1 0 line3_mid "Finite 0" 0 "Finite 0" None] i by blast
  have u: "Inv (projr (update 2 (Finite 5) line3_mid))"
    using queue_matches_kept [of line3 1 0 line3_mid "Finite 0" 2 "Finite 5" None] i by auto
  have s: "Inv (snd (start_acc (Some 2) line3_mid))"
    using queue_matches_kept [of line3 1 0 line3_mid "Finite 0" 2 "Finite 5" "Some 2"] i by blast
  from p r i q u s show ?thesis by blast
qed

text \<open>The claim C6 as it stands fails for the setter of the goal: after construction
  the old goal is on the open list with g and rhs that differ; with the goal set to
  another cell it is still on the list, and its g and rhs are both infinity.\<close>

theorem goal_setter_counterexample:
  "queue_matches (Planner line3 1 0) \<and>
   0 \<in> on_list (snd (goal_acc (Some 2) (Planner line3 1 0))) \<and>
   Math_equals (fst (p_g 0 DBL_MIN (snd (goal_acc (Some 2) (Planner line3 1 0)))))
     (fst (p_rhs 0 DBL_MIN (snd (goal_acc (Some 2) (Planner line3 1 0))))) \<and>
   \<not> queue_matches (snd (goal_acc (Some 2) (Planner line3 1 0)))"
proof -
  let ?s = "snd (goal_acc (Some 2) (Planner line3 1 0))"
  have a: "queue_matches (Planner line3 1 0)"
    using Planner_Inv [of line3 1 0] by (simp add: Inv_def)
  have b: "0 \<in> on_list ?s"
    by (simp add: goal_acc_def on_list_def Planner_eq)
  have c: "Math_equals (g_of ?s 0) (rhs_of ?s 0)"
    by (simp add: goal_acc_def Planner_eq g_of_def rhs_of_def r_of_def Math_INFINITY_def)
  from b c have d: "\<not> queue_matches ?s"
    unfolding queue_matches_def by blast
  from a b c d show ?thesis by (simp add: p_g_get p_rhs_get)
qed

section \<open>Replan after replan\<close>

lemma same_queue_refl [simp]: "same_queue s s"
  by (simp add: same_queue_def)

lemma same_queue_p_cell [simp]: "same_queue s (p_cell u s)"
  by (simp add: same_queue_def)

lemma same_queue_trans: "same_queue s t \<Longrightarrow> same_queue t u \<Longrightarrow> same_queue s u"
  by (simp add: same_queue_def)

lemma reads_path [simp]:
  "g_of (s\<lparr>path := p\<rparr>) = g_of s" "r_of (s\<lparr>path := p\<rparr>) = r_of s"
  "rhs_of (s\<lparr>path := p\<rparr>) = rhs_of s" "key_of (s\<lparr>path := p\<rparr>) = key_of s"
  by (simp_all add: g_of_def r_of_def rhs_of_def key_of_def fun_eq_iff)

lemma reads_p_cell_fun [simp]:
  "g_of (p_cell u s) = g_of s" "r_of (p_cell u s) = r_of s" "rhs_of (p_cell u s) = rhs_of s"
  "key_of (p_cell u s) = key_of s"
  by (simp_all add: fun_eq_iff)

lemma same_path [simp]: "same_reads s (s\<lparr>path := p\<rparr>)" "same_queue s (s\<lparr>path := p\<rparr>)"
  by (simp_all add: same_reads_def same_queue_def)

lemma walk_eq_p_cell: "walk_eq s t \<Longrightarrow> walk_eq (p_cell u s) (p_cell v t)"
  by (simp add: walk_eq_def fun_eq_iff)

subsection \<open>The smallest successor\<close>

lemma min_succ_nbrs_frame:
  "same_reads s (snd (min_succ_nbrs u ns c mc s)) \<and>
   same_queue s (snd (min_succ_nbrs u ns c mc s)) \<and>
   path (snd (min_succ_nbrs u ns c mc s)) = path s"
  unfolding same_reads_def same_queue_def
proof (induction ns arbitrary: s c mc)
  case Nil
  show ?case by simp
next
  case (Cons a ns)
  show ?case
  proof (cases a)
    case None
    then show ?thesis using Cons by simp
  next
    case (Some v)
    show ?thesis
      using Some Cons [of _ _ "p_cell v s"]
      by (simp add: p_g_get Let_def fun_eq_iff)
  qed
qed

lemma min_succ_nbrs_cong:
  "walk_eq s t \<Longrightarrow>
   fst (min_succ_nbrs u ns c mc s) = fst (min_succ_nbrs u ns c mc t) \<and>
   walk_eq (snd (min_succ_nbrs u ns c mc s)) (snd (min_succ_nbrs u ns c mc t))"
proof (induction ns arbitrary: s t c mc)
  case Nil
  then show ?case by simp
next
  case (Cons a ns)
  show ?case
  proof (cases a)
    case None
    then show ?thesis using Cons by simp
  next
    case (Some v)
    from Cons.prems have w: "walk_eq (p_cell v s) (p_cell v t)" by (rule walk_eq_p_cell)
    from Cons.prems have e: "g_of s v = g_of t v" "cells s = cells t"
      by (simp_all add: walk_eq_def)
    show ?thesis
      using Some Cons.IH [OF w] e
      by (simp add: p_g_get Let_def)
  qed
qed

subsection \<open>The walk\<close>

lemma follow_frame_aux:
  assumes "follow c0 s0 = Some y0"
  shows "same_reads s0 (snd y0) \<and> same_queue s0 (snd y0)"
proof (rule follow.raw_induct [OF _ assms,
        where P = "\<lambda>c s y. same_reads s (snd y) \<and> same_queue s (snd y)"], goal_cases)
  case (1 follow' current s y)
  show ?case
  proof (cases "current = Some (goal s)")
    case True
    with 1(2) show ?thesis by auto
  next
    case ng: False
    show ?thesis
    proof (cases current)
      case None
      with 1(2) show ?thesis by auto
    next
      case (Some c)
      show ?thesis
      proof (cases "Math_equals (fst (p_g c DBL_MIN s)) Math_INFINITY")
        case True
        with 1(2) ng Some show ?thesis by (auto simp: p_g_get)
      next
        case False
        let ?r = "p_min_succ c (snd (p_g c DBL_MIN s))"
        let ?t = "(snd ?r)\<lparr>path := path (snd ?r) @ [fst ?r]\<rparr>"
        from 1(2) ng Some False have "follow' (fst ?r) ?t = Some y"
          by simp
        from 1(1) [OF this] have a: "same_reads ?t (snd y)" "same_queue ?t (snd y)"
          by simp_all
        have b: "same_reads s ?t" "same_queue s ?t"
          using min_succ_nbrs_frame [of "p_cell c s" c "cell_nbrs (cells s c)" None Math_INFINITY]
          by (simp_all add: p_g_get p_min_succ_def same_reads_def same_queue_def)
        from a b show ?thesis
          by (blast intro: same_reads_trans same_queue_trans)
      qed
    qed
  qed
qed

lemma follow_cong_aux:
  assumes "follow c0 s0 = Some y0"
  shows "\<forall>t. walk_eq s0 t \<longrightarrow> (\<exists>t'. follow c0 t = Some (fst y0, t') \<and> walk_eq (snd y0) t')"
proof (rule follow.raw_induct [OF _ assms,
        where P = "\<lambda>c s y. \<forall>t. walk_eq s t \<longrightarrow>
                     (\<exists>t'. follow c t = Some (fst y, t') \<and> walk_eq (snd y) t')"], goal_cases)
  case (1 follow' current s y)
  show ?case
  proof (intro allI impI)
    fix t
    assume w: "walk_eq s t"
    then have g: "goal s = goal t" by (simp add: walk_eq_def)
    show "\<exists>t'. follow current t = Some (fst y, t') \<and> walk_eq (snd y) t'"
    proof (cases "current = Some (goal s)")
      case True
      with 1(2) w g show ?thesis by (subst follow.simps) auto
    next
      case ng: False
      show ?thesis
      proof (cases current)
        case None
        with 1(2) w g show ?thesis by (subst follow.simps) auto
      next
        case (Some c)
        from w have e: "g_of s c = g_of t c" "cells s = cells t"
          by (simp_all add: walk_eq_def)
        have wc: "walk_eq (p_cell c s) (p_cell c t)" using w by (rule walk_eq_p_cell)
        show ?thesis
        proof (cases "Math_equals (g_of s c) Math_INFINITY")
          case True
          with 1(2) ng Some g e wc show ?thesis
            by (subst follow.simps) (auto simp: p_g_get)
        next
          case False
          let ?rs = "min_succ_nbrs c (cell_nbrs (cells s c)) None Math_INFINITY (p_cell c s)"
          let ?rt = "min_succ_nbrs c (cell_nbrs (cells s c)) None Math_INFINITY (p_cell c t)"
          let ?s2 = "(snd ?rs)\<lparr>path := path (snd ?rs) @ [fst ?rs]\<rparr>"
          let ?t2 = "(snd ?rt)\<lparr>path := path (snd ?rt) @ [fst ?rt]\<rparr>"
          from min_succ_nbrs_cong [OF wc, of c "cell_nbrs (cells s c)" None Math_INFINITY]
          have m: "fst ?rs = fst ?rt" "walk_eq (snd ?rs) (snd ?rt)" by simp_all
          then have w2: "walk_eq ?s2 ?t2"
            by (simp add: walk_eq_def)
          from 1(2) ng Some False have "follow' (fst ?rs) ?s2 = Some y"
            by (simp add: p_g_get p_min_succ_def)
          from 1(1) [OF this] w2 obtain t' where "follow (fst ?rs) ?t2 = Some (fst y, t')"
            "walk_eq (snd y) t'" by blast
          with ng Some False g e m(1) show ?thesis
            by (subst follow.simps) (simp add: p_g_get p_min_succ_def)
        qed
      qed
    qed
  qed
qed

subsection \<open>The path through the repair loop\<close>

lemma p_list_ops_path:
  "p_list_remove u s = Inr s' \<Longrightarrow> path s' = path s"
  "p_list_update u k s = Inr s' \<Longrightarrow> path s' = path s"
  by (auto simp: p_list_remove_def p_list_update_def split: option.splits)

lemma p_list_insert_path [simp]: "path (p_list_insert u k s) = path s"
  by (simp add: p_list_insert_def)

lemma loop_cond_path [simp]: "path (snd (loop_cond s)) = path s"
  by (simp add: loop_cond_eq)

lemma p_update_path: "p_update u s = Inr s' \<Longrightarrow> path s' = path s"
  by (auto simp: p_update_eq dest: p_list_ops_path split: if_splits)

lemma p_g_path [simp]: "path (snd (p_g u v s)) = path s"
  by (cases "v = DBL_MIN") (simp_all add: p_g_get p_g_set)

lemma p_rhs_path [simp]: "path (snd (p_rhs u v s)) = path s"
  by (cases "v = DBL_MIN"; cases "u = goal s") (simp_all add: p_rhs_get p_rhs_set p_rhs_goal)

lemma lower_nbrs_path: "lower_nbrs u ns s = Inr s' \<Longrightarrow> path s' = path s"
proof (induction ns arbitrary: s)
  case Nil
  then show ?case by simp
next
  case (Cons a ns)
  show ?case
  proof (cases a)
    case None
    with Cons show ?thesis by simp
  next
    case (Some v)
    define s3 where "s3 =
            (if v \<noteq> goal s
             then
               (let (r, s1) = p_rhs v DBL_MIN s;
                    c = p_cost (cells s1) v u;
                    (g, s2) = p_g u DBL_MIN s1
                in snd (p_rhs v (dmin r (dadd c g)) s2))
             else s)"
    have p3: "path s3 = path s"
      by (simp add: s3_def p_rhs_get p_g_get Let_def)
    from Cons.prems Some obtain s4 where
      "p_update v s3 = Inr s4" "lower_nbrs u ns s4 = Inr s'"
      by (auto simp: s3_def [symmetric] Let_def split: sum.splits)
    with Cons.IH [of s4] p_update_path [of v s3 s4] p3 show ?thesis by simp
  qed
qed

lemma update_nbrs_path: "update_nbrs ns s = Inr s' \<Longrightarrow> path s' = path s"
proof (induction ns arbitrary: s)
  case Nil
  then show ?case by simp
next
  case (Cons a ns)
  then show ?case
    by (cases a) (auto split: sum.splits dest: p_update_path)
qed

lemma retract_cell_path: "retract_cell m u s = Inr (f, s') \<Longrightarrow> path s' = path s"
  by (auto simp: retract_cell_def Let_def p_g_get split: if_splits sum.splits
           dest!: p_update_path update_nbrs_path)

lemma compute_step_path: "compute_step m s = Inr (f, s') \<Longrightarrow> path s' = path s"
  by (auto simp: compute_step_eq split: list.splits if_splits sum.splits
           dest!: p_list_ops_path lower_nbrs_path retract_cell_path)

lemma compute_loop_path: "compute_loop m n s = Inr (r, s') \<Longrightarrow> path s' = path s"
proof (induction m n s rule: compute_loop.induct)
  case (1 m n s)
  show ?case
  proof (cases "fst (loop_cond s)")
    case False
    with "1.prems" show ?thesis by (auto simp: compute_loop.simps [of m n s])
  next
    case c: True
    show ?thesis
    proof (cases "MAX_STEPS < Suc n")
      case True
      with c "1.prems" show ?thesis by (auto simp: compute_loop.simps [of m n s])
    next
      case False
      show ?thesis
      proof (cases "compute_step m (snd (loop_cond s))")
        case (Inl e)
        with c False "1.prems" show ?thesis by (simp add: compute_loop.simps [of m n s])
      next
        case (Inr fs)
        obtain f s2 where fs: "fs = (f, s2)" by (cases fs)
        from Inr fs have p: "path s2 = path s"
          using compute_step_path [of m "snd (loop_cond s)" f s2] by simp
        show ?thesis
        proof (cases f)
          case Break
          with c False Inr fs "1.prems" p show ?thesis
            by (simp add: compute_loop.simps [of m n s])
        next
          case Continue
          with c False Inr fs "1.prems" have "compute_loop m (Suc n) s2 = Inr (r, s')"
            by (simp add: compute_loop.simps [of m n s])
          from "1.IH" [OF c False Inr fs [symmetric] Continue this] p show ?thesis by simp
        qed
      qed
    qed
  qed
qed

lemma p_compute_path: "p_compute m s = Inr (r, s') \<Longrightarrow> path s' = path s"
  by (auto simp: p_compute_def split: if_splits dest: compute_loop_path)

subsection \<open>A loop that stops at the step cap\<close>

lemma loop_cond_again [simp]: "fst (loop_cond (snd (loop_cond s))) = fst (loop_cond s)"
  by (simp add: loop_cond_eq)

lemma compute_loop_False: "compute_loop m n s = Inr (False, s') \<Longrightarrow> fst (loop_cond s')"
proof (induction m n s rule: compute_loop.induct)
  case (1 m n s)
  show ?case
  proof (cases "fst (loop_cond s)")
    case False
    with "1.prems" show ?thesis by (simp add: compute_loop.simps [of m n s])
  next
    case c: True
    show ?thesis
    proof (cases "MAX_STEPS < Suc n")
      case True
      with c "1.prems" have "s' = snd (loop_cond s)"
        by (simp add: compute_loop.simps [of m n s])
      with c show ?thesis by simp
    next
      case False
      show ?thesis
      proof (cases "compute_step m (snd (loop_cond s))")
        case (Inl e)
        with c False "1.prems" show ?thesis by (simp add: compute_loop.simps [of m n s])
      next
        case (Inr fs)
        obtain f s2 where fs: "fs = (f, s2)" by (cases fs)
        show ?thesis
        proof (cases f)
          case Break
          with c False Inr fs "1.prems" show ?thesis
            by (simp add: compute_loop.simps [of m n s])
        next
          case Continue
          with c False Inr fs "1.prems" have "compute_loop m (Suc n) s2 = Inr (False, s')"
            by (simp add: compute_loop.simps [of m n s])
          from "1.IH" [OF c False Inr fs [symmetric] Continue this] show ?thesis .
        qed
      qed
    qed
  qed
qed

subsection \<open>Replan on a state that reads the same\<close>

lemma same_reads_key_of: "same_reads s t \<Longrightarrow> key_of t = key_of s"
  using same_reads_rhs_of [of s t] by (intro ext) (simp add: same_reads_def key_of_def)

lemma loop_cond_same_reads:
  "same_reads s t \<Longrightarrow> open_list t = open_list s \<Longrightarrow> fst (loop_cond t) = fst (loop_cond s)"
  using same_reads_key_of [of s t] same_reads_rhs_of [of s t]
  by (simp add: loop_cond_eq same_reads_def)

lemma replan_again:
  assumes r: "replan m s = Some (Inr (b, s1))"
    and ne: "open_list s1 \<noteq> []"
    and q: "\<not> fst (loop_cond s1)"
    and t: "same_reads s1 t" "open_list t = open_list s1"
  shows "replan_path m t = Some (Inr (b, path s1))"
proof -
  let ?t0 = "t\<lparr>path := []\<rparr>"
  let ?t2 = "p_cell (start t) ?t0"
  have "same_reads s1 ?t0"
    using t(1) by (simp add: same_reads_def)
  then have "fst (loop_cond ?t0) = fst (loop_cond s1)"
    using t(2) by (intro loop_cond_same_reads) simp_all
  with q have q0: "\<not> fst (loop_cond ?t0)" by simp
  then have c2: "p_compute m ?t0 = Inr (True, ?t2)"
    using ne t(2) by (simp add: p_compute_def compute_loop.simps [of m 0 ?t0] loop_cond_eq)
  from r obtain rc sc where c: "p_compute m (s\<lparr>path := []\<rparr>) = Inr (rc, sc)"
    by (auto simp: replan_def split: sum.splits)
  then have psc: "path sc = []"
    using p_compute_path by fastforce
  have rc
  proof (rule ccontr)
    assume f: "\<not> rc"
    with r c have e: "s1 = sc" by (simp add: replan_def)
    show False
    proof (cases "open_list (s\<lparr>path := []\<rparr>) = []")
      case True
      with c e ne show False by (simp add: p_compute_def)
    next
      case False
      with c f have "compute_loop m 0 (s\<lparr>path := []\<rparr>) = Inr (False, sc)"
        by (simp add: p_compute_def)
      then have "fst (loop_cond sc)" by (rule compute_loop_False)
      with e q show False by simp
    qed
  qed
  with r c psc have f1: "follow (Some (start sc)) (sc\<lparr>path := [Some (start sc)]\<rparr>) = Some (b, s1)"
    by (auto simp: replan_def split: option.splits)
  from follow_frame_aux [OF f1] have fr: "same_reads (sc\<lparr>path := [Some (start sc)]\<rparr>) s1"
    by simp
  have w: "walk_eq (sc\<lparr>path := [Some (start sc)]\<rparr>) (?t2\<lparr>path := [Some (start ?t2)]\<rparr>)"
    using fr t(1) by (simp add: walk_eq_def same_reads_def)
  from follow_cong_aux [OF f1] w obtain t' where
    f2: "follow (Some (start sc)) (?t2\<lparr>path := [Some (start ?t2)]\<rparr>) = Some (b, t')"
    and w': "walk_eq s1 t'"
    by fastforce
  have st: "start sc = start ?t2"
    using fr t(1) by (simp add: same_reads_def)
  from c2 f2 st have "replan m t = Some (Inr (b, t'))"
    by (simp add: replan_def)
  with w' show ?thesis
    by (simp add: replan_path_def walk_eq_def)
qed

lemma replan_empty:
  "open_list s = [] \<Longrightarrow> replan m s = Some (Inr (False, s\<lparr>path := []\<rparr>))"
  by (simp add: replan_def p_compute_def)

lemma compute_loop_True_Inv:
  "Inv s \<Longrightarrow> compute_loop m n s = Inr (True, s') \<Longrightarrow> \<not> fst (loop_cond s')"
proof (induction m n s rule: compute_loop.induct)
  case (1 m n s)
  let ?s1 = "snd (loop_cond s)"
  have i1: "Inv ?s1" using "1.prems"(1) by (simp add: loop_cond_eq Inv_p_cell)
  show ?case
  proof (cases "fst (loop_cond s)")
    case False
    with "1.prems"(2) have "s' = ?s1" by (simp add: compute_loop.simps [of m n s])
    with False show ?thesis by simp
  next
    case c: True
    show ?thesis
    proof (cases "MAX_STEPS < Suc n")
      case True
      with c "1.prems"(2) show ?thesis by (simp add: compute_loop.simps [of m n s])
    next
      case False
      from "1.prems"(1) c have "open_list ?s1 \<noteq> []" by (rule loop_cond_Inv)
      with i1 obtain s2 where s2: "compute_step m ?s1 = Inr (Continue, s2)" "Inv s2"
        using compute_step_Inv by blast
      with c False "1.prems"(2) have "compute_loop m (Suc n) s2 = Inr (True, s')"
        by (simp add: compute_loop.simps [of m n s])
      from "1.IH" [OF c False s2(1) refl refl s2(2) this] show ?thesis .
    qed
  qed
qed

lemma replan_True_Inv:
  assumes "Inv s" "replan m s = Some (Inr (True, s1))"
  shows "\<not> fst (loop_cond s1)"
proof -
  from assms(2) obtain rc sc where c: "p_compute m (s\<lparr>path := []\<rparr>) = Inr (rc, sc)"
    by (auto simp: replan_def split: sum.splits)
  have rc
  proof (rule ccontr)
    assume "\<not> rc"
    with assms(2) c show False by (simp add: replan_def)
  qed
  with assms(2) c
  have f: "follow (Some (start sc)) (sc\<lparr>path := path sc @ [Some (start sc)]\<rparr>) = Some (True, s1)"
    by (auto simp: replan_def split: option.splits)
  from c \<open>rc\<close> have "compute_loop m 0 (s\<lparr>path := []\<rparr>) = Inr (True, sc)"
    by (auto simp: p_compute_def split: if_splits)
  with assms(1) have q: "\<not> fst (loop_cond sc)"
    using compute_loop_True_Inv [of "s\<lparr>path := []\<rparr>" m 0 sc] by simp
  from follow_frame_aux [OF f]
  have "same_reads sc s1" "open_list s1 = open_list sc"
    by (simp_all add: same_reads_def same_queue_def)
  then have "fst (loop_cond s1) = fst (loop_cond sc)"
    by (rule loop_cond_same_reads)
  with q show ?thesis by simp
qed

section \<open>Two replans in a row\<close>

text \<open>C5, as amended: when a \<^verbatim>\<open>replan()\<close> returns and leaves an open list that is not
  empty and a state in which the condition of the repair loop is false (the loop ended
  by its condition, not by the step cap or the break), the next \<^verbatim>\<open>replan()\<close> returns the
  same boolean and \<^verbatim>\<open>path()\<close> returns the same cells after it. Under the invariant
  \<open>Inv\<close>, which holds of every planner whose goal was not set after construction, a
  \<^verbatim>\<open>replan()\<close> that returns true and leaves an open list that is not empty is followed by
  one that returns true with the same path. When the open list is empty before the
  first call, both calls return false and the path is empty after each.\<close>

theorem replan_twice:
  "(replan m s = Some (Inr (b, s1)) \<and> open_list s1 \<noteq> [] \<and> \<not> fst (loop_cond s1)
      \<longrightarrow> replan_path m s1 = Some (Inr (b, path s1))) \<and>
   (Inv s \<and> replan m s = Some (Inr (True, s1)) \<and> open_list s1 \<noteq> []
      \<longrightarrow> replan_path m s1 = Some (Inr (True, path s1))) \<and>
   (open_list s = []
      \<longrightarrow> replan m s = Some (Inr (False, s\<lparr>path := []\<rparr>)) \<and>
          replan_path m (s\<lparr>path := []\<rparr>) = Some (Inr (False, [])))"
proof (intro conjI impI)
  assume "replan m s = Some (Inr (b, s1)) \<and> open_list s1 \<noteq> [] \<and> \<not> fst (loop_cond s1)"
  then show "replan_path m s1 = Some (Inr (b, path s1))"
    using replan_again [of m s b s1 s1] by simp
next
  assume a: "Inv s \<and> replan m s = Some (Inr (True, s1)) \<and> open_list s1 \<noteq> []"
  then have "\<not> fst (loop_cond s1)"
    using replan_True_Inv [of s m s1] by simp
  with a show "replan_path m s1 = Some (Inr (True, path s1))"
    using replan_again [of m s True s1 s1] by simp
next
  assume e: "open_list s = []"
  then show "replan m s = Some (Inr (False, s\<lparr>path := []\<rparr>))" by (rule replan_empty)
  from e show "replan_path m (s\<lparr>path := []\<rparr>) = Some (Inr (False, []))"
    by (simp add: replan_path_def replan_empty)
qed

lemma loop_cond_line3_mid: "\<not> fst (loop_cond line3_mid)"
  by (simp add: loop_cond_eq line3_mid_def key_of_def g_of_def rhs_of_def r_of_def p_h_def
        line3_def KeyCompare_def Math_less_def Math_greater_def Math_EPSILON_def Let_def)

theorem replan_twice_witness:
  "replan (Finite 0) (Planner line3 1 0) = Some (Inr (True, line3_mid)) \<and>
   open_list line3_mid \<noteq> [] \<and> \<not> fst (loop_cond line3_mid) \<and>
   Inv (Planner line3 1 0) \<and>
   replan_path (Finite 0) line3_mid = Some (Inr (True, [Some 1, Some 0])) \<and>
   open_list line3_drained = [] \<and>
   replan (Finite 0) line3_drained = Some (Inr (False, line3_drained\<lparr>path := []\<rparr>)) \<and>
   replan_path (Finite 0) (line3_drained\<lparr>path := []\<rparr>) = Some (Inr (False, []))"
proof -
  have a: "replan (Finite 0) (Planner line3 1 0) = Some (Inr (True, line3_mid))"
    by (rule replan_line3_mid)
  have b: "open_list line3_mid \<noteq> []" "path line3_mid = [Some 1, Some 0]"
    by (simp_all add: line3_mid_def)
  have c: "\<not> fst (loop_cond line3_mid)" by (rule loop_cond_line3_mid)
  have d: "open_list line3_drained = []" by (simp add: line3_drained_def)
  have i: "Inv (Planner line3 1 0)" by (rule Planner_Inv)
  from replan_twice [of "Finite 0" "Planner line3 1 0" True line3_mid] a b c i
  have 1: "replan_path (Finite 0) line3_mid = Some (Inr (True, [Some 1, Some 0]))"
    by simp
  from replan_twice [of "Finite 0" line3_drained True line3_mid] d
  have 2: "replan (Finite 0) line3_drained = Some (Inr (False, line3_drained\<lparr>path := []\<rparr>))"
    "replan_path (Finite 0) (line3_drained\<lparr>path := []\<rparr>) = Some (Inr (False, []))"
    by simp_all
  from a b(1) c d i 1 2 show ?thesis by blast
qed

text \<open>The claim C5 as it stands fails: on the row with the start at (2,0) and the goal
  at (0,0) the first \<^verbatim>\<open>replan()\<close> returns true with the path of the three cells and
  leaves the open list empty; the second returns false with an empty path.\<close>

theorem replan_twice_counterexample:
  "replan_path (Finite 0) (Planner line3 2 0) = Some (Inr (True, [Some 2, Some 1, Some 0])) \<and>
   replan (Finite 0) (Planner line3 2 0) = Some (Inr (True, line3_drained)) \<and>
   replan_path (Finite 0) line3_drained = Some (Inr (False, []))"
  using replan_line3_far [of "Finite 0"] replan_line3_drained [of "Finite 0"]
  by (simp add: replan_path_def line3_drained_def)

section \<open>Raising a cost and setting it back\<close>

lemma p_h_same [simp]: "p_h m a a = Finite 0"
  by (simp add: p_h_def)

lemma dadd_zero [simp]: "dadd k (Finite 0) = k"
  by (cases k) simp_all

lemma update_consistent:
  assumes "u \<noteq> goal s" "open_hash s u = None" "Math_equals (g_of s u) (rhs_of s u)"
    "last_cell s = start s"
  shows "update u c s = Inr ((p_cell u s)\<lparr>cells := (cells s)(u := (cells s u)\<lparr>cell_cost := c\<rparr>)\<rparr>)"
proof -
  have "s\<lparr>km := km s, last_cell := start s\<rparr> = s"
    using assms(4) by simp
  with assms show ?thesis
    by (simp add: update_def p_update_eq Let_def g_of_def rhs_of_def r_of_def p_cell_def)
qed

lemma raise_and_restore_consistent:
  assumes "u \<noteq> goal s" "open_hash s u = None" "Math_equals (g_of s u) (rhs_of s u)"
    "last_cell s = start s"
  shows "raise_and_restore u (cell_cost (cells s u)) s = Inr (p_cell u s)"
proof -
  let ?s1 = "(p_cell u s)\<lparr>cells := (cells s)(u := (cells s u)\<lparr>cell_cost := COST_UNWALKABLE\<rparr>)\<rparr>"
  have 1: "update u COST_UNWALKABLE s = Inr ?s1"
    using assms by (rule update_consistent)
  have e: "(p_cell u ?s1)\<lparr>cells := (cells ?s1)(u := (cells ?s1 u)\<lparr>cell_cost := cell_cost (cells s u)\<rparr>)\<rparr>
          = p_cell u s"
    by (simp add: p_cell_def)
  have "update u (cell_cost (cells s u)) ?s1
          = Inr ((p_cell u ?s1)\<lparr>cells := (cells ?s1)(u := (cells ?s1 u)\<lparr>cell_cost := cell_cost (cells s u)\<rparr>)\<rparr>)"
    using assms by (intro update_consistent) (simp_all add: g_of_def rhs_of_def r_of_def p_cell_def)
  then have 2: "update u (cell_cost (cells s u)) ?s1 = Inr (p_cell u s)"
    by (simp only: e)
  show ?thesis
    by (simp only: raise_and_restore_def 1 2 sum.case)
qed

subsection \<open>What the two updates and the repair loop leave alone\<close>

lemma same_map_refl [simp]: "same_map s s"
  by (simp add: same_map_def)

lemma same_map_trans: "same_map s t \<Longrightarrow> same_map t u \<Longrightarrow> same_map s u"
  by (simp add: same_map_def)

lemma same_reads_map: "same_reads s s' \<Longrightarrow> same_map s s'"
  by (simp add: same_reads_def same_map_def)

lemma p_list_ops_store:
  "p_list_remove u s = Inr s' \<Longrightarrow> same_store s s'"
  "p_list_update u k s = Inr s' \<Longrightarrow> same_store s s'"
  by (auto simp: p_list_remove_def p_list_update_def same_store_def split: option.splits)

lemma p_list_insert_store [simp]: "same_store s (p_list_insert u k s)"
  by (simp add: same_store_def p_list_insert_def)

lemma p_update_reads: "p_update u s = Inr s' \<Longrightarrow> same_reads s s'"
proof -
  assume a: "p_update u s = Inr s'"
  then have "same_store (p_cell u s) s'"
    by (auto simp: p_update_eq same_store_def p_list_insert_def dest: p_list_ops_store
             split: if_splits)
  then have "same_reads (p_cell u s) s'" by (rule same_store_reads)
  with same_reads_p_cell [of s u] show ?thesis by (rule same_reads_trans)
qed

lemma p_g_map [simp]: "same_map s (snd (p_g u v s))"
  by (cases "v = DBL_MIN") (simp_all add: p_g_get p_g_set same_map_def)

lemma p_rhs_map [simp]: "same_map s (snd (p_rhs u v s))"
  by (cases "v = DBL_MIN"; cases "u = goal s")
     (simp_all add: p_rhs_get p_rhs_set p_rhs_goal same_map_def)

lemma p_update_map: "p_update u s = Inr s' \<Longrightarrow> same_map s s'"
  by (rule same_reads_map) (rule p_update_reads)

lemma lower_nbrs_map: "lower_nbrs u ns s = Inr s' \<Longrightarrow> same_map s s'"
proof (induction ns arbitrary: s)
  case Nil
  then show ?case by simp
next
  case (Cons a ns)
  show ?case
  proof (cases a)
    case None
    with Cons show ?thesis by simp
  next
    case (Some v)
    define s3 where "s3 =
            (if v \<noteq> goal s
             then
               (let (r, s1) = p_rhs v DBL_MIN s;
                    c = p_cost (cells s1) v u;
                    (g, s2) = p_g u DBL_MIN s1
                in snd (p_rhs v (dmin r (dadd c g)) s2))
             else s)"
    have "same_map (p_cell u (p_cell v s)) (snd (p_rhs v x (p_cell u (p_cell v s))))" for x
      by (rule p_rhs_map)
    then have p3: "same_map s s3"
      by (simp add: s3_def p_rhs_get p_g_get Let_def same_map_def)
    from Cons.prems Some obtain s4 where
      "p_update v s3 = Inr s4" "lower_nbrs u ns s4 = Inr s'"
      by (auto simp: s3_def [symmetric] Let_def split: sum.splits)
    with Cons.IH [of s4] p_update_map [of v s3 s4] p3 show ?thesis
      by (blast intro: same_map_trans)
  qed
qed

lemma update_nbrs_map: "update_nbrs ns s = Inr s' \<Longrightarrow> same_map s s'"
proof (induction ns arbitrary: s)
  case Nil
  then show ?case by simp
next
  case (Cons a ns)
  show ?case
  proof (cases a)
    case None
    with Cons show ?thesis by simp
  next
    case (Some v)
    with Cons.prems obtain s1 where "p_update v s = Inr s1" "update_nbrs ns s1 = Inr s'"
      by (auto split: sum.splits)
    with Cons.IH [of s1] p_update_map [of v s s1] show ?thesis
      by (blast intro: same_map_trans)
  qed
qed

lemma retract_cell_map: "retract_cell m u s = Inr (f, s') \<Longrightarrow> same_map s s'"
proof -
  assume a: "retract_cell m u s = Inr (f, s')"
  define s2 where "s2 = snd (p_g u Math_INFINITY (p_cell u s))"
  define s4 where "s4 = snd (p_rhs u m (p_cell u s2))"
  have m2: "same_map s s2"
    using p_g_map [of "p_cell u s" u Math_INFINITY] by (simp add: s2_def same_map_def)
  have m4: "same_map s2 s4"
    using p_rhs_map [of "p_cell u s2" u m] by (simp add: s4_def same_map_def)
  have e: "retract_cell m u s =
     (case (if goal s2 \<noteq> u
            then (if Math_equals (g_of s2 u) Math_INFINITY then Inl (p_cell u s2) else Inr s4)
            else Inr s2) of
        Inl s3 \<Rightarrow> Inr (Break, s3)
      | Inr s4 \<Rightarrow>
          (case p_update u s4 of
             Inl e \<Rightarrow> Inl e
           | Inr s5 \<Rightarrow>
               (case update_nbrs (cell_nbrs (cells s2 u)) s5 of
                  Inl e \<Rightarrow> Inl e
                | Inr s6 \<Rightarrow> Inr (Continue, s6))))"
    unfolding s2_def s4_def by (simp add: retract_cell_def p_g_get Let_def eq_commute)
  have rest: "same_map s s'"
    if "p_update u t = Inr s5" "update_nbrs (cell_nbrs (cells s2 u)) s5 = Inr s'" "same_map s t"
    for t s5
    using that p_update_map [of u t s5] update_nbrs_map [of _ s5 s']
    by (blast intro: same_map_trans)
  show ?thesis
  proof (cases "goal s2 = u")
    case True
    with a e obtain s5 where "p_update u s2 = Inr s5"
      "update_nbrs (cell_nbrs (cells s2 u)) s5 = Inr s'"
      by (auto split: sum.splits)
    with m2 show ?thesis by (intro rest)
  next
    case False
    show ?thesis
    proof (cases "Math_equals (g_of s2 u) Math_INFINITY")
      case True
      with a e False have "s' = p_cell u s2" by simp
      with m2 show ?thesis by (simp add: same_map_def)
    next
      case ni: False
      with a e False obtain s5 where "p_update u s4 = Inr s5"
        "update_nbrs (cell_nbrs (cells s2 u)) s5 = Inr s'"
        by (auto split: sum.splits)
      moreover from m2 m4 have "same_map s s4" by (rule same_map_trans)
      ultimately show ?thesis by (intro rest)
    qed
  qed
qed

lemma compute_step_map: "compute_step m s = Inr (f, s') \<Longrightarrow> same_map s s'"
proof -
  assume a: "compute_step m s = Inr (f, s')"
  then obtain n rest where l: "open_list s = n # rest"
    by (cases "open_list s") (auto simp: compute_step_eq)
  define u where "u = node_cell n"
  show ?thesis
  proof (cases "KeyCompare (node_key n) (key_of s u)")
    case True
    with a l have "p_list_update u (key_of s u) (p_cell u s) = Inr s'"
      by (auto simp: compute_step_eq u_def split: sum.splits)
    from p_list_ops_store(2) [OF this] show ?thesis
      by (simp add: same_store_def same_map_def)
  next
    case k: False
    show ?thesis
    proof (cases "Math_greater (g_of s u) (rhs_of s u)")
      case True
      define s5 where "s5 = snd (p_g u (rhs_of s u) (p_cell u s))"
      have m5: "same_map s s5"
        using p_g_map [of "p_cell u s" u "rhs_of s u"] by (simp add: s5_def same_map_def)
      from a l k True obtain s6 where s6: "p_list_remove u s5 = Inr s6"
        "lower_nbrs u (cell_nbrs (cells s6 u)) s6 = Inr s'"
        by (auto simp: compute_step_eq u_def [symmetric] s5_def [symmetric] split: sum.splits)
      from p_list_ops_store(1) [OF s6(1)] have "same_map s5 s6"
        by (simp add: same_store_def same_map_def)
      with m5 lower_nbrs_map [OF s6(2)] show ?thesis
        by (blast intro: same_map_trans)
    next
      case False
      with a l k have "retract_cell m u (p_cell u s) = Inr (f, s')"
        by (simp add: compute_step_eq u_def)
      from retract_cell_map [OF this] show ?thesis by (simp add: same_map_def)
    qed
  qed
qed

lemma loop_cond_map [simp]: "same_map s (snd (loop_cond s))"
  by (simp add: loop_cond_eq same_map_def)

lemma compute_loop_map: "compute_loop m n s = Inr (r, s') \<Longrightarrow> same_map s s'"
proof (induction m n s rule: compute_loop.induct)
  case (1 m n s)
  show ?case
  proof (cases "fst (loop_cond s)")
    case False
    with "1.prems" show ?thesis by (auto simp: compute_loop.simps [of m n s])
  next
    case c: True
    show ?thesis
    proof (cases "MAX_STEPS < Suc n")
      case True
      with c "1.prems" show ?thesis by (auto simp: compute_loop.simps [of m n s])
    next
      case False
      show ?thesis
      proof (cases "compute_step m (snd (loop_cond s))")
        case (Inl e)
        with c False "1.prems" show ?thesis by (simp add: compute_loop.simps [of m n s])
      next
        case (Inr fs)
        obtain f s2 where fs: "fs = (f, s2)" by (cases fs)
        from Inr fs have "same_map (snd (loop_cond s)) s2"
          using compute_step_map [of m "snd (loop_cond s)" f s2] by simp
        then have p: "same_map s s2"
          using loop_cond_map [of s] by (blast intro: same_map_trans)
        show ?thesis
        proof (cases f)
          case Break
          with c False Inr fs "1.prems" p show ?thesis
            by (simp add: compute_loop.simps [of m n s])
        next
          case Continue
          with c False Inr fs "1.prems" have "compute_loop m (Suc n) s2 = Inr (r, s')"
            by (simp add: compute_loop.simps [of m n s])
          from "1.IH" [OF c False Inr fs [symmetric] Continue this] p show ?thesis
            by (blast intro: same_map_trans)
        qed
      qed
    qed
  qed
qed

lemma p_compute_map: "p_compute m s = Inr (r, s') \<Longrightarrow> same_map s s'"
  by (auto simp: p_compute_def split: if_splits dest: compute_loop_map)

lemma reads_fields [simp]:
  "g_of (s\<lparr>km := k\<rparr>) = g_of s" "g_of (s\<lparr>last_cell := l\<rparr>) = g_of s"
  "g_of (s\<lparr>cells := c\<rparr>) = g_of s"
  "r_of (s\<lparr>km := k\<rparr>) = r_of s" "r_of (s\<lparr>last_cell := l\<rparr>) = r_of s"
  "r_of (s\<lparr>cells := c\<rparr>) = r_of s"
  by (simp_all add: g_of_def r_of_def fun_eq_iff)

lemma update_reads:
  assumes "u \<noteq> goal s" "update u c s = Inr s'"
  shows "cells s' = (cells s)(u := (cells s u)\<lparr>cell_cost := c\<rparr>) \<and>
         g_of s' = g_of s \<and> r_of s' = r_of s \<and>
         km s' = dadd (km s) (p_h (cells s) (last_cell s) (start s)) \<and>
         start s' = start s \<and> goal s' = goal s \<and> last_cell s' = start s"
proof -
  let ?s1 = "s\<lparr>km := dadd (km s) (p_h (cells s) (last_cell s) (start s)), last_cell := start s\<rparr>"
  let ?s3 = "(p_cell u ?s1)\<lparr>cells := (cells (p_cell u ?s1))(u := (cells (p_cell u ?s1) u)\<lparr>cell_cost := c\<rparr>)\<rparr>"
  from assms have "p_update u ?s3 = Inr s'"
    by (simp add: update_def Let_def)
  then have "same_reads ?s3 s'" by (rule p_update_reads)
  then show ?thesis
    by (simp add: same_reads_def)
qed

lemma raise_and_restore_reads:
  assumes "raise_and_restore u (cell_cost (cells s u)) s = Inr s'"
  shows "cells s' = cells s \<and> g_of s' = g_of s \<and> start s' = start s \<and> goal s' = goal s"
proof (cases "u = goal s")
  case True
  with assms show ?thesis by (simp add: raise_and_restore_def update_def)
next
  case False
  from assms obtain t where t: "update u COST_UNWALKABLE s = Inr t"
    "update u (cell_cost (cells s u)) t = Inr s'"
    by (auto simp: raise_and_restore_def split: sum.splits)
  note a = update_reads [OF False t(1)]
  with False have "u \<noteq> goal t" by simp
  note b = update_reads [OF this t(2)]
  from a b show ?thesis
    by simp
qed

lemma raise_restore_general:
  assumes r: "replan m s = Some (Inr (True, s1))"
    and rr: "raise_and_restore u (cell_cost (cells s1 u)) s1 = Inr s2"
    and c: "p_compute m (s2\<lparr>path := []\<rparr>) = Inr (True, sc)"
    and g: "g_of sc = g_of s2"
  shows "replan_path m s2 = Some (Inr (True, path s1))"
proof -
  from r obtain rc sc1 where c1: "p_compute m (s\<lparr>path := []\<rparr>) = Inr (rc, sc1)"
    by (auto simp: replan_def split: sum.splits)
  have rc
  proof (rule ccontr)
    assume "\<not> rc"
    with r c1 show False by (simp add: replan_def)
  qed
  from c1 have p1: "path sc1 = []"
    using p_compute_path by fastforce
  from r c1 \<open>rc\<close> p1
  have f1: "follow (Some (start sc1)) (sc1\<lparr>path := [Some (start sc1)]\<rparr>) = Some (True, s1)"
    by (auto simp: replan_def split: option.splits)
  from follow_frame_aux [OF f1] have fr: "same_reads (sc1\<lparr>path := [Some (start sc1)]\<rparr>) s1"
    by simp
  note e2 = raise_and_restore_reads [OF rr]
  from c have pc: "path sc = []"
    using p_compute_path by fastforce
  from p_compute_map [OF c] have mc: "cells sc = cells s2" "start sc = start s2" "goal sc = goal s2"
    by (simp_all add: same_map_def)
  have w: "walk_eq (sc1\<lparr>path := [Some (start sc1)]\<rparr>) (sc\<lparr>path := [Some (start sc)]\<rparr>)"
    using fr e2 mc g by (simp add: walk_eq_def same_reads_def)
  from follow_cong_aux [OF f1] w obtain t' where
    f2: "follow (Some (start sc1)) (sc\<lparr>path := [Some (start sc)]\<rparr>) = Some (True, t')"
    and w': "walk_eq s1 t'"
    by fastforce
  have st: "start sc1 = start sc"
    using fr e2 mc by (simp add: same_reads_def)
  from c f2 st pc have "replan m s2 = Some (Inr (True, t'))"
    by (simp add: replan_def)
  with w' show ?thesis
    by (simp add: replan_path_def walk_eq_def)
qed

subsection \<open>A cell on the open list\<close>

lemma p_h_cost [simp]: "p_h (m(u := (m u)\<lparr>cell_cost := c\<rparr>)) a b = p_h m a b"
  by (simp add: p_h_def)

lemma key_of_cong:
  assumes "g_of t = g_of s" "r_of t = r_of s" "goal t = goal s" "start t = start s"
    "km t = km s" "\<And>a b. p_h (cells t) a b = p_h (cells s) a b"
  shows "key_of t = key_of s"
  using assms by (intro ext) (simp add: key_of_def rhs_of_def)

lemma p_update_nodes:
  assumes "p_update u s = Inr s'"
  shows "\<forall>n \<in> set (open_list s'). n \<in> set (open_list s) \<or> node_key n = key_of s u"
proof (cases "open_hash s u")
  case None
  with assms show ?thesis
    by (auto simp: p_update_eq p_list_insert_def split: if_splits)
next
  case (Some h)
  show ?thesis
  proof (cases "ol_split h (open_list s)")
    case None
    with Some assms show ?thesis
      by (auto simp: p_update_eq p_list_update_def p_list_remove_def split: if_splits)
  next
    case sp: (Some pp)
    obtain pre post where pp: "pp = (pre, post)" by (cases pp)
    from sp pp obtain n where "open_list s = pre @ n # post"
      using ol_split_Some by blast
    with Some sp pp assms show ?thesis
      by (auto simp: p_update_eq p_list_update_def p_list_remove_def split: if_splits)
  qed
qed

lemma update_nodes:
  assumes "u \<noteq> goal s" "last_cell s = start s" "update u c s = Inr s'"
  shows "\<forall>n \<in> set (open_list s'). n \<in> set (open_list s) \<or> node_key n = key_of s u"
proof -
  let ?s3 = "(p_cell u s)\<lparr>cells := (cells s)(u := (cells s u)\<lparr>cell_cost := c\<rparr>)\<rparr>"
  have "s\<lparr>last_cell := start s\<rparr> = s"
    by (simp add: assms(2) [symmetric])
  with assms have "p_update u ?s3 = Inr s'"
    by (simp add: update_def Let_def)
  from p_update_nodes [OF this] have "\<forall>n \<in> set (open_list s'). n \<in> set (open_list s) \<or> node_key n = key_of ?s3 u"
    by simp
  moreover have "key_of ?s3 = key_of s"
    by (rule key_of_cong) simp_all
  ultimately show ?thesis by simp
qed

lemma raise_and_restore_queued:
  assumes i: "Inv s" and q: "\<not> fst (loop_cond s)" and ls: "last_cell s = start s"
    and ug: "u \<noteq> goal s" and on: "u \<in> on_list s"
    and k5: "\<forall>n \<in> set (open_list s). \<not> KeyCompare (node_key n) (key_of s (start s))"
    and ku: "\<not> KeyCompare (key_of s u) (key_of s (start s))"
  shows "\<exists>s2. raise_and_restore u (cell_cost (cells s u)) s = Inr s2 \<and>
           open_list s2 \<noteq> [] \<and> \<not> fst (loop_cond s2)"
proof -
  from update_Inv [OF i] obtain sa where sa: "update u COST_UNWALKABLE s = Inr sa" "Inv sa"
    by blast
  note a = update_reads [OF ug sa(1)]
  from a ls have kma: "km sa = km s" by simp
  have ka: "key_of sa = key_of s"
    using a kma by (intro key_of_cong) simp_all
  from a ug have uga: "u \<noteq> goal sa" by simp
  from a have lsa: "last_cell sa = start sa" by simp
  from update_Inv [OF sa(2)] obtain s2 where s2: "update u (cell_cost (cells s u)) sa = Inr s2" "Inv s2"
    by blast
  note b = update_reads [OF uga s2(1)]
  from b lsa kma have km2: "km s2 = km s" by simp
  from a b have c2: "cells s2 = cells s" by simp
  have k2: "key_of s2 = key_of s"
    using a b km2 c2 by (intro key_of_cong) simp_all
  have r2: "rhs_of s2 = rhs_of s"
    using a b by (simp add: rhs_of_def fun_eq_iff)
  have g2: "g_of s2 = g_of s" using a b by simp
  have st2: "start s2 = start s" using a b by simp
  note na = update_nodes [OF ug ls sa(1)]
  note nb = update_nodes [OF uga lsa s2(1)]
  have all: "\<not> KeyCompare (node_key n) (key_of s (start s))" if "n \<in> set (open_list s2)" for n
  proof -
    from nb that have "n \<in> set (open_list sa) \<or> node_key n = key_of s u"
      by (auto simp: ka)
    with na have "n \<in> set (open_list s) \<or> node_key n = key_of s u"
      by auto
    with k5 ku show ?thesis by auto
  qed
  from i on have "\<not> Math_equals (g_of s u) (rhs_of s u)"
    by (simp add: Inv_def queue_matches_def)
  then have "\<not> Math_equals (g_of s2 u) (rhs_of s2 u)"
    by (simp add: g2 r2)
  with s2(2) have "u \<in> on_list s2"
    unfolding Inv_def queue_matches_def by blast
  then have ne: "open_list s2 \<noteq> []"
    by (auto simp: on_list_def)
  then have "hd (open_list s2) \<in> set (open_list s2)" by simp
  from all [OF this] q have "\<not> fst (loop_cond s2)"
    by (simp add: loop_cond_eq k2 r2 g2 st2)
  moreover have "raise_and_restore u (cell_cost (cells s u)) s = Inr s2"
    by (simp add: raise_and_restore_def sa(1) s2(1))
  ultimately show ?thesis using ne by blast
qed

lemma compute_idle:
  "open_list s \<noteq> [] \<Longrightarrow> \<not> fst (loop_cond s) \<Longrightarrow>
   p_compute m (s\<lparr>path := []\<rparr>) = Inr (True, p_cell (start s) (s\<lparr>path := []\<rparr>))"
proof -
  assume a: "open_list s \<noteq> []" "\<not> fst (loop_cond s)"
  have "fst (loop_cond (s\<lparr>path := []\<rparr>)) = fst (loop_cond s)"
    by (simp add: loop_cond_eq)
  with a show ?thesis
    by (simp add: p_compute_def compute_loop.simps [of m 0 "s\<lparr>path := []\<rparr>"] loop_cond_eq)
qed

subsection \<open>Runs on the seven cells\<close>

lemmas bay_simps = run_simps bay_def Math_SQRT2_def

lemma replan_bay: "replan m (Planner bay 8 10) = Some (Inr (True, bay_first))"
  by (simp add: bay_simps bay_first_def)

lemma replan_bay_first:
  "replan m (snd (start_acc (Some 1) bay_first)) = Some (Inr (True, bay_second))"
  by (simp add: bay_simps bay_first_def bay_second_def)

lemma raise_and_restore_bay_second: "raise_and_restore 1 (Finite 1) bay_second = Inr bay_third"
  by (simp add: bay_simps bay_second_def bay_third_def)

lemma replan_bay_third:
  "replan_path m bay_third = Some (Inr (True, [Some 1, Some 2, Some 7, Some 10]))"
  by (simp add: bay_simps bay_second_def bay_third_def)

lemma raise_and_restore_line3_mid:
  "raise_and_restore 2 (Finite 1) line3_mid = Inr line3_rekeyed"
  by (simp add: run_simps line3_mid_def line3_rekeyed_def)

subsection \<open>The round trip\<close>

text \<open>C9, as amended. After a \<^verbatim>\<open>replan()\<close> that returns true with the path P, and the
  calls \<^verbatim>\<open>update(u, COST_UNWALKABLE)\<close> and \<^verbatim>\<open>update(u, c0)\<close> with the cost \<open>c0\<close> that
  \<open>u\<close> had: when \<^verbatim>\<open>_compute\<close> in the next \<^verbatim>\<open>replan()\<close> returns true and changes no g,
  that \<^verbatim>\<open>replan()\<close> returns true and its path is P. Under the invariant \<open>Inv\<close> before
  the first \<^verbatim>\<open>replan()\<close>, which holds of every planner whose goal was not set after
  construction, this is so when the first \<^verbatim>\<open>replan()\<close> leaves an open list that is not
  empty and last equal to the start, \<open>u\<close> is not the goal, and either \<open>u\<close> is not on the
  open list, or no key stored on the open list and not the key \<^verbatim>\<open>_k(u)\<close> is below the
  key of the start.\<close>

theorem raise_restore_replan:
  "(replan m s = Some (Inr (True, s1)) \<and>
    raise_and_restore u (cell_cost (cells s1 u)) s1 = Inr s2 \<and>
    p_compute m (s2\<lparr>path := []\<rparr>) = Inr (True, sc) \<and> g_of sc = g_of s2
    \<longrightarrow> replan_path m s2 = Some (Inr (True, path s1))) \<and>
   (Inv s \<and> replan m s = Some (Inr (True, s1)) \<and> open_list s1 \<noteq> [] \<and>
    last_cell s1 = start s1 \<and> u \<noteq> goal s1 \<and>
    (u \<in> node_cell ` set (open_list s1) \<longrightarrow>
       (\<forall>n \<in> set (open_list s1). \<not> KeyCompare (node_key n) (fst (p_k (start s1) s1))) \<and>
       \<not> KeyCompare (fst (p_k u s1)) (fst (p_k (start s1) s1)))
    \<longrightarrow> (\<exists>s2. raise_and_restore u (cell_cost (cells s1 u)) s1 = Inr s2 \<and>
              replan_path m s2 = Some (Inr (True, path s1))))"
proof (intro conjI impI)
  assume "replan m s = Some (Inr (True, s1)) \<and>
    raise_and_restore u (cell_cost (cells s1 u)) s1 = Inr s2 \<and>
    p_compute m (s2\<lparr>path := []\<rparr>) = Inr (True, sc) \<and> g_of sc = g_of s2"
  then show "replan_path m s2 = Some (Inr (True, path s1))"
    using raise_restore_general [of m s s1 u s2 sc] by simp
next
  assume a: "Inv s \<and> replan m s = Some (Inr (True, s1)) \<and> open_list s1 \<noteq> [] \<and>
    last_cell s1 = start s1 \<and> u \<noteq> goal s1 \<and>
    (u \<in> node_cell ` set (open_list s1) \<longrightarrow>
       (\<forall>n \<in> set (open_list s1). \<not> KeyCompare (node_key n) (fst (p_k (start s1) s1))) \<and>
       \<not> KeyCompare (fst (p_k u s1)) (fst (p_k (start s1) s1)))"
  then have r: "replan m s = Some (Inr (True, s1))" by simp
  from a have i: "Inv s1" using replan_Inv(2) [of s m True s1] by simp
  from a have q: "\<not> fst (loop_cond s1)" using replan_True_Inv [of s m s1] by simp
  have "\<exists>s2. raise_and_restore u (cell_cost (cells s1 u)) s1 = Inr s2 \<and>
          open_list s2 \<noteq> [] \<and> \<not> fst (loop_cond s2)"
  proof (cases "u \<in> on_list s1")
    case True
    with a i q show ?thesis
      by (intro raise_and_restore_queued) (simp_all add: on_list_def p_k_eq)
  next
    case False
    with i have h: "open_hash s1 u = None"
      using on_list_iff [of s1 u] by (simp add: Inv_def)
    from i False have e: "Math_equals (g_of s1 u) (rhs_of s1 u)"
      by (simp add: Inv_def queue_matches_def)
    from a h e have "raise_and_restore u (cell_cost (cells s1 u)) s1 = Inr (p_cell u s1)"
      by (intro raise_and_restore_consistent) simp_all
    moreover have "open_list (p_cell u s1) \<noteq> []" "\<not> fst (loop_cond (p_cell u s1))"
      using a q by (simp_all add: loop_cond_eq)
    ultimately show ?thesis by blast
  qed
  then obtain s2 where s2: "raise_and_restore u (cell_cost (cells s1 u)) s1 = Inr s2"
    "open_list s2 \<noteq> []" "\<not> fst (loop_cond s2)"
    by blast
  have c: "p_compute m (s2\<lparr>path := []\<rparr>) = Inr (True, p_cell (start s2) (s2\<lparr>path := []\<rparr>))"
    using s2(2) s2(3) by (rule compute_idle)
  have g: "g_of (p_cell (start s2) (s2\<lparr>path := []\<rparr>)) = g_of s2"
    by simp
  from r s2(1) c g have "replan_path m s2 = Some (Inr (True, path s1))"
    by (rule raise_restore_general)
  with s2(1) show "\<exists>s2. raise_and_restore u (cell_cost (cells s1 u)) s1 = Inr s2 \<and>
              replan_path m s2 = Some (Inr (True, path s1))"
    by blast
qed

text \<open>On the row with the start at (1,0): the cell at (2,0), which is on the open list,
  under both parts of the theorem, and the cell at (1,0), which is not, under the second
  part.\<close>

theorem raise_restore_replan_witness:
  "replan (Finite 0) (Planner line3 1 0) = Some (Inr (True, line3_mid)) \<and>
   cell_cost (cells line3_mid 2) = Finite 1 \<and>
   raise_and_restore 2 (Finite 1) line3_mid = Inr line3_rekeyed \<and>
   p_compute (Finite 0) (line3_rekeyed\<lparr>path := []\<rparr>) = Inr (True, line3_rekeyed\<lparr>path := []\<rparr>) \<and>
   g_of (line3_rekeyed\<lparr>path := []\<rparr>) = g_of line3_rekeyed \<and>
   replan_path (Finite 0) line3_rekeyed = Some (Inr (True, [Some 1, Some 0])) \<and>
   Inv (Planner line3 1 0) \<and>
   open_list line3_mid = [Node 2 (Finite 3, Finite 2) 2] \<and>
   last_cell line3_mid = start line3_mid \<and> 2 \<noteq> goal line3_mid \<and>
   \<not> KeyCompare (Finite 3, Finite 2) (fst (p_k (start line3_mid) line3_mid)) \<and>
   \<not> KeyCompare (fst (p_k 2 line3_mid)) (fst (p_k (start line3_mid) line3_mid)) \<and>
   replan_path (Finite 0) (projr (raise_and_restore 2 (Finite 1) line3_mid))
     = Some (Inr (True, [Some 1, Some 0])) \<and>
   1 \<noteq> goal line3_mid \<and> 1 \<notin> node_cell ` set (open_list line3_mid) \<and>
   cell_cost (cells line3_mid 1) = Finite 1 \<and>
   replan_path (Finite 0) (projr (raise_and_restore 1 (Finite 1) line3_mid))
     = Some (Inr (True, [Some 1, Some 0]))"
proof -
  have a: "replan (Finite 0) (Planner line3 1 0) = Some (Inr (True, line3_mid))"
    by (rule replan_line3_mid)
  have b: "open_list line3_mid = [Node 2 (Finite 3, Finite 2) 2]"
    "path line3_mid = [Some 1, Some 0]"
    "last_cell line3_mid = start line3_mid" "2 \<noteq> goal line3_mid" "1 \<noteq> goal line3_mid"
    "cell_cost (cells line3_mid 2) = Finite 1" "cell_cost (cells line3_mid 1) = Finite 1"
    "1 \<notin> node_cell ` set (open_list line3_mid)"
    by (simp_all add: line3_mid_def line3_def)
  have k: "\<not> KeyCompare (Finite 3, Finite 2) (fst (p_k (start line3_mid) line3_mid))"
    "\<not> KeyCompare (fst (p_k 2 line3_mid)) (fst (p_k (start line3_mid) line3_mid))"
    by (simp_all add: line3_mid_def line3_def p_k_eq key_of_def g_of_def rhs_of_def r_of_def
          p_h_def KeyCompare_def Math_less_def Math_greater_def Math_EPSILON_def Let_def)
  have r: "raise_and_restore 2 (Finite 1) line3_mid = Inr line3_rekeyed"
    by (rule raise_and_restore_line3_mid)
  have c: "p_compute (Finite 0) (line3_rekeyed\<lparr>path := []\<rparr>) = Inr (True, line3_rekeyed\<lparr>path := []\<rparr>)"
    by (simp add: run_simps line3_rekeyed_def line3_mid_def)
  have g: "g_of (line3_rekeyed\<lparr>path := []\<rparr>) = g_of line3_rekeyed"
    by simp
  have i: "Inv (Planner line3 1 0)" by (rule Planner_Inv)
  from raise_restore_replan [of "Finite 0" "Planner line3 1 0" line3_mid 2 line3_rekeyed
         "line3_rekeyed\<lparr>path := []\<rparr>"] a b r c g
  have 1: "replan_path (Finite 0) line3_rekeyed = Some (Inr (True, [Some 1, Some 0]))"
    by simp
  from raise_restore_replan [of "Finite 0" "Planner line3 1 0" line3_mid 1 line3_rekeyed
         "line3_rekeyed\<lparr>path := []\<rparr>"] a b i
  have 2: "replan_path (Finite 0) (projr (raise_and_restore 1 (Finite 1) line3_mid))
     = Some (Inr (True, [Some 1, Some 0]))"
    by auto
  from raise_restore_replan [of "Finite 0" "Planner line3 1 0" line3_mid 2 line3_rekeyed
         "line3_rekeyed\<lparr>path := []\<rparr>"] a b k i
  have 3: "replan_path (Finite 0) (projr (raise_and_restore 2 (Finite 1) line3_mid))
     = Some (Inr (True, [Some 1, Some 0]))"
    by auto
  from a b k r c g i 1 2 3 show ?thesis by blast
qed

text \<open>The claim C9 as it stands fails in two ways. On the row with the start at (2,0)
  and the goal at (0,0) the first \<^verbatim>\<open>replan()\<close> returns true and leaves the open list
  empty; raising the cost of the middle cell and setting it back changes nothing, and the
  next \<^verbatim>\<open>replan()\<close> returns false with an empty path. On the seven cells, after a
  \<^verbatim>\<open>replan()\<close> from cell 8, \<^verbatim>\<open>start(u)\<close> with cell 1 and a \<^verbatim>\<open>replan()\<close> that returns true
  with the path 1, 4, 9, 10 and leaves the cells 7 and 2 on the open list, raising the cost
  of cell 1 and setting it back adds h(last, start) to km; the next \<^verbatim>\<open>replan()\<close> settles
  the cells 7 and 2 and returns true with the path 1, 2, 7, 10, which costs the same.\<close>

theorem raise_restore_counterexample:
  "replan_path (Finite 0) (Planner line3 2 0) = Some (Inr (True, [Some 2, Some 1, Some 0])) \<and>
   replan (Finite 0) (Planner line3 2 0) = Some (Inr (True, line3_drained)) \<and>
   1 \<noteq> goal line3_drained \<and> cell_cost (cells line3_drained 1) = Finite 1 \<and>
   raise_and_restore 1 (Finite 1) line3_drained = Inr line3_drained \<and>
   replan_path (Finite 0) line3_drained = Some (Inr (False, [])) \<and>
   replan (Finite 0) (Planner bay 8 10) = Some (Inr (True, bay_first)) \<and>
   replan (Finite 0) (snd (start_acc (Some 1) bay_first)) = Some (Inr (True, bay_second)) \<and>
   path bay_second = [Some 1, Some 4, Some 9, Some 10] \<and>
   open_list bay_second \<noteq> [] \<and> 1 \<notin> node_cell ` set (open_list bay_second) \<and>
   start bay_second = 1 \<and> last_cell bay_second = 8 \<and>
   1 \<noteq> goal bay_second \<and> cell_cost (cells bay_second 1) = Finite 1 \<and>
   raise_and_restore 1 (Finite 1) bay_second = Inr bay_third \<and>
   replan_path (Finite 0) bay_third = Some (Inr (True, [Some 1, Some 2, Some 7, Some 10]))"
proof -
  have a: "replan_path (Finite 0) (Planner line3 2 0) = Some (Inr (True, [Some 2, Some 1, Some 0])) \<and>
   replan (Finite 0) (Planner line3 2 0) = Some (Inr (True, line3_drained)) \<and>
   1 \<noteq> goal line3_drained \<and> cell_cost (cells line3_drained 1) = Finite 1 \<and>
   raise_and_restore 1 (Finite 1) line3_drained = Inr line3_drained \<and>
   replan_path (Finite 0) line3_drained = Some (Inr (False, []))"
    using replan_line3_far [of "Finite 0"] replan_line3_drained [of "Finite 0"]
      raise_and_restore_line3_drained
    by (simp add: replan_path_def line3_drained_def line3_def)
  have b: "path bay_second = [Some 1, Some 4, Some 9, Some 10]" "open_list bay_second \<noteq> []"
    "1 \<noteq> goal bay_second" "cell_cost (cells bay_second 1) = Finite 1"
    "1 \<notin> node_cell ` set (open_list bay_second)"
    "start bay_second = 1" "last_cell bay_second = 8"
    by (simp_all add: bay_second_def bay_def)
  from a b replan_bay [of "Finite 0"] replan_bay_first [of "Finite 0"]
    raise_and_restore_bay_second replan_bay_third [of "Finite 0"]
  show ?thesis by simp
qed

end
